theory Spec2Isabelle
  imports Main "HOL-Library.Word" "HOL-Library.AList" "HOL-Library.List_Lexorder"
begin

unbundle bit_operations_syntax

section \<open>Data model of the priority queue (pqueue.go)\<close>

type_synonym u8 = "8 word"
type_synonym u64 = "64 word"
type_synonym bytes = "u8 list"

text \<open>The error values the priority queue hands back. \<open>ErrStorage\<close> stands for any
  error reported by the LevelDB collaborator on a put, get, delete or iteration;
  \<open>ErrNotFound\<close> is LevelDB's answer to a get of an absent key.\<close>

datatype error = ErrEmpty | ErrOutOfBounds | ErrIncompatibleType | ErrNotFound | ErrStorage

text \<open>\<^verbatim>\<open>type order int\<close> with the constants \<^verbatim>\<open>ASC = iota\<close> and \<^verbatim>\<open>DESC\<close>.\<close>

type_synonym order = int

definition ASC :: order where
  "ASC = 0"

definition DESC :: order where
  "DESC = 1"

record priorityLevel =
  head :: u64
  tail :: u64

text \<open>\<^verbatim>\<open>func (pl *priorityLevel) length() uint64\<close>: unsigned 64-bit subtraction, wrapping.\<close>

definition length_pl :: "priorityLevel \<Rightarrow> u64" where
  "length_pl pl = tail pl - head pl"

record PriorityItem =
  ID :: u64
  Priority :: u8
  Key :: bytes
  Value :: bytes

subsection \<open>The storage collaborator\<close>

text \<open>LevelDB is an ordered key-value store. Its content is an association list from
  keys to values; the first binding of a key is the live one. Every call takes a flag
  \<open>ok\<close>: when it is \<open>False\<close> the store reports a failure and its content is
  left as it was.\<close>

type_synonym leveldb = "(bytes \<times> bytes) list"

definition db_Put :: "bool \<Rightarrow> leveldb \<Rightarrow> bytes \<Rightarrow> bytes \<Rightarrow> leveldb \<times> error option" where
  "db_Put ok d k v = (if ok then (AList.update k v d, None) else (d, Some ErrStorage))"

definition db_Get :: "bool \<Rightarrow> leveldb \<Rightarrow> bytes \<Rightarrow> bytes \<times> error option" where
  "db_Get ok d k =
     (if ok then (case map_of d k of None \<Rightarrow> ([], Some ErrNotFound) | Some v \<Rightarrow> (v, None))
      else ([], Some ErrStorage))"

definition db_Delete :: "bool \<Rightarrow> leveldb \<Rightarrow> bytes \<Rightarrow> leveldb \<times> error option" where
  "db_Delete ok d k = (if ok then (AList.delete k d, None) else (d, Some ErrStorage))"

text \<open>\<^verbatim>\<open>db.NewIterator(util.BytesPrefix(prefix), nil)\<close>: the keys that start with the
  prefix. \<^verbatim>\<open>iter.First()\<close> moves to the smallest of them in byte-lexicographic order,
  \<^verbatim>\<open>iter.Last()\<close> to the largest; both answer false when there is none.\<close>

definition iter_keys :: "leveldb \<Rightarrow> bytes \<Rightarrow> bytes list" where
  "iter_keys d pre = filter (\<lambda>k. take (length pre) k = pre) (map fst d)"

definition iter_First :: "bytes list \<Rightarrow> bytes option" where
  "iter_First ks = (case ks of [] \<Rightarrow> None | k # ks' \<Rightarrow> Some (fold min ks' k))"

definition iter_Last :: "bytes list \<Rightarrow> bytes option" where
  "iter_Last ks = (case ks of [] \<Rightarrow> None | k # ks' \<Rightarrow> Some (fold max ks' k))"

subsection \<open>Key codec\<close>

text \<open>Modelled from the spec: \<^verbatim>\<open>idToKey\<close> and \<^verbatim>\<open>keyToID\<close> are called by
  \<^verbatim>\<open>generateKey\<close> and \<^verbatim>\<open>init\<close> but defined in another file of the repository. The
  spec (4.1) gives the id as an 8-byte big-endian integer.\<close>

definition idToKey :: "u64 \<Rightarrow> bytes" where
  "idToKey i = map (\<lambda>k. ucast (drop_bit (8 * k) i)) [7, 6, 5, 4, 3, 2, 1, 0]"

definition keyToID :: "bytes \<Rightarrow> u64" where
  "keyToID bs = foldl (\<lambda>a b. push_bit 8 a OR ucast b) 0 bs"

text \<open>\<^verbatim>\<open>prefixSep = []byte(":")\<close>, the byte 0x3A.\<close>

definition prefixSep :: bytes where
  "prefixSep = [0x3A]"

definition generatePrefix :: "u8 \<Rightarrow> bytes" where
  "generatePrefix level = [level, hd prefixSep]"

definition generateKey :: "u8 \<Rightarrow> u64 \<Rightarrow> bytes" where
  "generateKey priority i = take 2 (generatePrefix priority) @ take 8 (idToKey i)"

subsection \<open>The queue\<close>

text \<open>The values the index takes in \<^verbatim>\<open>for i := 0; i <= 255; i++\<close>; the descending
  loop \<^verbatim>\<open>for i := 255; i >= 0; i--\<close> walks the same list backwards.\<close>

definition level_range :: "nat list" where
  "level_range = [0..<256]"

record PriorityQueue =
  DataDir :: string
  db :: leveldb
  order :: order
  levels :: "u8 \<Rightarrow> priorityLevel"
  curLevel :: u8
  isOpen :: bool

definition cmpAsc :: "PriorityQueue \<Rightarrow> u8 \<Rightarrow> bool" where
  "cmpAsc pq priority \<longleftrightarrow> order pq = ASC \<and> priority < curLevel pq"

definition cmpDesc :: "PriorityQueue \<Rightarrow> u8 \<Rightarrow> bool" where
  "cmpDesc pq priority \<longleftrightarrow> order pq = DESC \<and> priority > curLevel pq"

definition resetCurrentLevel :: "PriorityQueue \<Rightarrow> PriorityQueue" where
  "resetCurrentLevel pq =
     (if order pq = ASC then pq\<lparr>curLevel := 255\<rparr>
      else if order pq = DESC then pq\<lparr>curLevel := 0\<rparr>
      else pq)"

text \<open>A call returns the Go pair \<^verbatim>\<open>(*PriorityItem, error)\<close>: \<open>None\<close> in the first
  component is the nil pointer, \<open>None\<close> in the second the nil error.\<close>

type_synonym result = "PriorityItem option \<times> error option"

definition getItemByPriorityID :: "bool \<Rightarrow> PriorityQueue \<Rightarrow> u8 \<Rightarrow> u64 \<Rightarrow> result" where
  "getItemByPriorityID get_ok pq priority i =
     (if length_pl (levels pq priority) = 0 then (None, Some ErrEmpty)
      else if i \<le> head (levels pq priority) \<or> i > tail (levels pq priority)
        then (None, Some ErrOutOfBounds)
      else
        (let k = generateKey priority i;
             (v, err) = db_Get get_ok (db pq) k
         in (Some \<lparr>ID = i, Priority = priority, Key = k, Value = v\<rparr>, err)))"

text \<open>The body of the scan loop of \<^verbatim>\<open>getNextItem\<close>, for the loop index \<open>i\<close>.\<close>

definition getNextItem_step :: "nat \<Rightarrow> PriorityQueue \<Rightarrow> PriorityQueue" where
  "getNextItem_step i pq =
     (if (cmpAsc pq (of_nat i) \<or> cmpDesc pq (of_nat i)) \<and> length_pl (levels pq (of_nat i)) > 0
      then pq\<lparr>curLevel := of_nat i\<rparr> else pq)"

definition getNextItem :: "bool \<Rightarrow> PriorityQueue \<Rightarrow> PriorityQueue \<times> result" where
  "getNextItem get_ok pq =
     (if length_pl (levels pq (curLevel pq)) = 0 then
        (let pq1 = resetCurrentLevel pq;
             pq2 = fold getNextItem_step level_range pq1
         in if length_pl (levels pq2 (curLevel pq2)) = 0 then (pq2, None, Some ErrEmpty)
            else (pq2, getItemByPriorityID get_ok pq2 (curLevel pq2)
                         (head (levels pq2 (curLevel pq2)) + 1)))
      else (pq, getItemByPriorityID get_ok pq (curLevel pq)
                  (head (levels pq (curLevel pq)) + 1)))"

text \<open>\<^verbatim>\<open>Enqueue\<close> writes the id and the key into the caller's item; the model hands
  the item back.\<close>

definition Enqueue :: "bool \<Rightarrow> PriorityQueue \<Rightarrow> PriorityItem \<Rightarrow>
    PriorityQueue \<times> PriorityItem \<times> error option" where
  "Enqueue put_ok pq item =
     (let level = levels pq (Priority item);
          item1 = item\<lparr>ID := tail level + 1\<rparr>;
          item2 = item1\<lparr>Key := generateKey (Priority item1) (ID item1)\<rparr>;
          (d, err) = db_Put put_ok (db pq) (Key item2) (Value item2)
      in if err = None then
           (let pq1 = pq\<lparr>db := d,
                  levels := (levels pq)(Priority item2 := level\<lparr>tail := tail level + 1\<rparr>)\<rparr>;
                pq2 = (if cmpAsc pq1 (Priority item2) \<or> cmpDesc pq1 (Priority item2)
                       then pq1\<lparr>curLevel := Priority item2\<rparr> else pq1)
            in (pq2, item2, err))
         else (pq, item2, err))"

text \<open>The delete-and-advance tail shared by \<^verbatim>\<open>Dequeue\<close> and
  \<^verbatim>\<open>DequeueByPriority\<close>: \<open>p\<close> is the level whose head is advanced. A nil item
  with a nil error never reaches it (\<^verbatim>\<open>item.Key\<close> would fault).\<close>

definition remove_item :: "bool \<Rightarrow> PriorityQueue \<Rightarrow> u8 \<Rightarrow> result \<Rightarrow> PriorityQueue \<times> result" where
  "remove_item del_ok pq p r =
     (case r of
        (item, Some e) \<Rightarrow> (pq, item, Some e)
      | (None, None) \<Rightarrow> (pq, None, None)
      | (Some it, None) \<Rightarrow>
          (let (d, err) = db_Delete del_ok (db pq) (Key it)
           in if err \<noteq> None then (pq, Some it, err)
              else (pq\<lparr>db := d,
                       levels := (levels pq)(p := (levels pq p)\<lparr>head := head (levels pq p) + 1\<rparr>)\<rparr>,
                    Some it, None)))"

definition Dequeue :: "bool \<Rightarrow> bool \<Rightarrow> PriorityQueue \<Rightarrow> PriorityQueue \<times> result" where
  "Dequeue get_ok del_ok pq =
     (let (pq1, r) = getNextItem get_ok pq
      in remove_item del_ok pq1 (curLevel pq1) r)"

definition DequeueByPriority :: "bool \<Rightarrow> bool \<Rightarrow> PriorityQueue \<Rightarrow> u8 \<Rightarrow> PriorityQueue \<times> result" where
  "DequeueByPriority get_ok del_ok pq priority =
     remove_item del_ok pq priority
       (getItemByPriorityID get_ok pq priority (head (levels pq priority) + 1))"

definition Peek :: "bool \<Rightarrow> PriorityQueue \<Rightarrow> PriorityQueue \<times> result" where
  "Peek get_ok pq = getNextItem get_ok pq"

fun findOffsetAsc_loop :: "bool \<Rightarrow> PriorityQueue \<Rightarrow> u64 \<Rightarrow> nat list \<Rightarrow> u64 \<Rightarrow> u8 \<Rightarrow> result" where
  "findOffsetAsc_loop get_ok pq offset [] len priority = (None, Some ErrOutOfBounds)"
| "findOffsetAsc_loop get_ok pq offset (i # is) len priority =
     (let iu8 = of_nat i in
      if iu8 \<ge> priority \<and> length_pl (levels pq iu8) > 0 then
        (let newLength = length_pl (levels pq iu8) - 1 in
         if len + newLength \<ge> offset
         then getItemByPriorityID get_ok pq iu8 (offset - len + 1)
         else findOffsetAsc_loop get_ok pq offset is (len + newLength + 1) iu8)
      else findOffsetAsc_loop get_ok pq offset is len priority)"

definition findOffsetAsc :: "bool \<Rightarrow> PriorityQueue \<Rightarrow> u64 \<Rightarrow> result" where
  "findOffsetAsc get_ok pq offset = findOffsetAsc_loop get_ok pq offset level_range 0 (curLevel pq)"

fun findOffsetDesc_loop :: "bool \<Rightarrow> PriorityQueue \<Rightarrow> u64 \<Rightarrow> nat list \<Rightarrow> u64 \<Rightarrow> u8 \<Rightarrow> result" where
  "findOffsetDesc_loop get_ok pq offset [] len priority = (None, Some ErrOutOfBounds)"
| "findOffsetDesc_loop get_ok pq offset (i # is) len priority =
     (let iu8 = of_nat i in
      if iu8 \<le> priority \<and> length_pl (levels pq iu8) > 0 then
        (let newLength = length_pl (levels pq iu8) - 1 in
         if len + newLength \<ge> offset
         then getItemByPriorityID get_ok pq iu8 (offset - len + 1)
         else findOffsetDesc_loop get_ok pq offset is (len + newLength + 1) iu8)
      else findOffsetDesc_loop get_ok pq offset is len priority)"

definition findOffsetDesc :: "bool \<Rightarrow> PriorityQueue \<Rightarrow> u64 \<Rightarrow> result" where
  "findOffsetDesc get_ok pq offset =
     findOffsetDesc_loop get_ok pq offset (rev level_range) 0 (curLevel pq)"

definition PeekByOffset :: "bool \<Rightarrow> PriorityQueue \<Rightarrow> u64 \<Rightarrow> result" where
  "PeekByOffset get_ok pq offset =
     (if length_pl (levels pq (curLevel pq)) - 1 \<ge> offset
      then getItemByPriorityID get_ok pq (curLevel pq)
             (head (levels pq (curLevel pq)) + offset + 1)
      else if order pq = ASC then findOffsetAsc get_ok pq offset
      else if order pq = DESC then findOffsetDesc get_ok pq offset
      else (None, None))"

definition PeekByPriorityID :: "bool \<Rightarrow> PriorityQueue \<Rightarrow> u8 \<Rightarrow> u64 \<Rightarrow> result" where
  "PeekByPriorityID get_ok pq priority i = getItemByPriorityID get_ok pq priority i"

definition Update :: "bool \<Rightarrow> PriorityQueue \<Rightarrow> PriorityItem \<Rightarrow> bytes \<Rightarrow>
    PriorityQueue \<times> PriorityItem \<times> error option" where
  "Update put_ok pq item newValue =
     (let item1 = item\<lparr>Value := newValue\<rparr>;
          (d, err) = db_Put put_ok (db pq) (Key item1) (Value item1)
      in (pq\<lparr>db := d\<rparr>, item1, err))"

definition Length :: "PriorityQueue \<Rightarrow> u64" where
  "Length pq = fold (\<lambda>i len. len + length_pl (levels pq (of_nat i))) level_range 0"

text \<open>\<^verbatim>\<open>init\<close>: one pass of the recovery loop for the level \<open>i\<close>. \<open>iter_ok\<close> tells
  whether the iterator of a level finishes without an error; on an error \<^verbatim>\<open>init\<close>
  returns it at once.\<close>

definition init_step :: "(u8 \<Rightarrow> bool) \<Rightarrow> nat \<Rightarrow> PriorityQueue \<Rightarrow> error + PriorityQueue" where
  "init_step iter_ok i pq =
     (let ks = iter_keys (db pq) (generatePrefix (of_nat i));
          pl = \<lparr>head = 0, tail = 0\<rparr>;
          (pl1, pq1) =
            (case iter_First ks of
               Some k \<Rightarrow>
                 (pl\<lparr>head := keyToID (drop 2 k) - 1\<rparr>,
                  if cmpAsc pq (of_nat i) \<or> cmpDesc pq (of_nat i)
                  then pq\<lparr>curLevel := of_nat i\<rparr> else pq)
             | None \<Rightarrow> (pl, pq));
          pl2 = (case iter_Last ks of
                   Some k \<Rightarrow> pl1\<lparr>tail := keyToID (drop 2 k)\<rparr>
                 | None \<Rightarrow> pl1)
      in if \<not> iter_ok (of_nat i) then Inl ErrStorage
         else Inr (pq1\<lparr>levels := (levels pq1)(of_nat i := pl2)\<rparr>))"

fun init_loop :: "(u8 \<Rightarrow> bool) \<Rightarrow> nat list \<Rightarrow> PriorityQueue \<Rightarrow> error + PriorityQueue" where
  "init_loop iter_ok [] pq = Inr pq"
| "init_loop iter_ok (i # is) pq =
     (case init_step iter_ok i pq of
        Inl e \<Rightarrow> Inl e
      | Inr pq1 \<Rightarrow> init_loop iter_ok is pq1)"

definition init :: "(u8 \<Rightarrow> bool) \<Rightarrow> PriorityQueue \<Rightarrow> error + PriorityQueue" where
  "init iter_ok pq = init_loop iter_ok level_range (resetCurrentLevel pq)"

text \<open>\<^verbatim>\<open>OpenPriorityQueue\<close>. \<open>opened\<close> is what \<^verbatim>\<open>leveldb.OpenFile\<close> returns (an error,
  or the database with its content) and \<open>checked\<close> what \<^verbatim>\<open>checkGoqueType\<close> returns;
  both live outside this file. The Go function returns the queue next to the error; the
  model returns the error alone. The level table holds nil pointers until \<^verbatim>\<open>init\<close>
  fills it; the model starts it with zeroed levels, which \<^verbatim>\<open>init\<close> overwrites one by
  one.\<close>

definition OpenPriorityQueue :: "string \<Rightarrow> order \<Rightarrow> error + leveldb \<Rightarrow> error + bool \<Rightarrow>
    (u8 \<Rightarrow> bool) \<Rightarrow> error + PriorityQueue" where
  "OpenPriorityQueue dataDir ord opened checked iter_ok =
     (case opened of
        Inl e \<Rightarrow> Inl e
      | Inr store \<Rightarrow>
          (case checked of
             Inl e \<Rightarrow> Inl e
           | Inr ok \<Rightarrow>
               if \<not> ok then Inl ErrIncompatibleType
               else init iter_ok \<lparr>DataDir = dataDir, db = store, order = ord,
                      levels = (\<lambda>_. \<lparr>head = 0, tail = 0\<rparr>), curLevel = 0, isOpen = True\<rparr>))"

section \<open>Call sequences, orderings and example states\<close>

text \<open>The public calls that touch the in-memory state, each with the outcome of the
  storage calls it makes (\<open>True\<close>: the store answers; \<open>False\<close>: it fails).\<close>

datatype call =
    CallEnqueue bool PriorityItem
  | CallDequeue bool bool
  | CallDequeueByPriority bool bool u8
  | CallPeek bool
  | CallPeekByOffset bool u64
  | CallPeekByPriorityID bool u8 u64
  | CallUpdate bool PriorityItem bytes

text \<open>The queue after one call. \<^verbatim>\<open>PeekByOffset\<close> and \<^verbatim>\<open>PeekByPriorityID\<close> contain
  no assignment to the queue, so their models return no queue and the state stays.\<close>

fun exec :: "call \<Rightarrow> PriorityQueue \<Rightarrow> PriorityQueue" where
  "exec (CallEnqueue put_ok item) pq = fst (Enqueue put_ok pq item)"
| "exec (CallDequeue get_ok del_ok) pq = fst (Dequeue get_ok del_ok pq)"
| "exec (CallDequeueByPriority get_ok del_ok p) pq = fst (DequeueByPriority get_ok del_ok pq p)"
| "exec (CallPeek get_ok) pq = fst (Peek get_ok pq)"
| "exec (CallPeekByOffset get_ok offset) pq = pq"
| "exec (CallPeekByPriorityID get_ok p i) pq = pq"
| "exec (CallUpdate put_ok item v) pq = fst (Update put_ok pq item v)"

definition run :: "call list \<Rightarrow> PriorityQueue \<Rightarrow> PriorityQueue" where
  "run cs pq = fold exec cs pq"

text \<open>Enqueue every item of a list, the store answering each put.\<close>

definition enqueueAll :: "PriorityItem list \<Rightarrow> PriorityQueue \<Rightarrow> PriorityQueue" where
  "enqueueAll items pq = fold (\<lambda>item q. fst (Enqueue True q item)) items pq"

text \<open>Call \<^verbatim>\<open>Dequeue\<close> up to \<open>n\<close> times, the store answering every call, and collect
  the items handed out; stop at the first call that reports an error.\<close>

fun drain :: "nat \<Rightarrow> PriorityQueue \<Rightarrow> PriorityItem list" where
  "drain 0 pq = []"
| "drain (Suc n) pq =
     (case Dequeue True True pq of
        (pq1, Some it, None) \<Rightarrow> it # drain n pq1
      | _ \<Rightarrow> [])"

text \<open>Level \<open>p\<close> is strictly more important than level \<open>c\<close>: lower in ascending
  mode, higher in descending mode.\<close>

definition more_important :: "order \<Rightarrow> u8 \<Rightarrow> u8 \<Rightarrow> bool" where
  "more_important ord p c \<longleftrightarrow> (ord = ASC \<and> p < c) \<or> (ord = DESC \<and> p > c)"

definition cursor_inv :: "PriorityQueue \<Rightarrow> bool" where
  "cursor_inv pq \<longleftrightarrow>
     (\<forall>p. more_important (order pq) p (curLevel pq) \<longrightarrow>
          head (levels pq p) = tail (levels pq p))"

text \<open>Every level has head at most tail, and no tail is beyond \<open>n\<close>.\<close>

definition counters_ok :: "nat \<Rightarrow> PriorityQueue \<Rightarrow> bool" where
  "counters_ok n pq \<longleftrightarrow>
     (\<forall>p. head (levels pq p) \<le> tail (levels pq p) \<and> unat (tail (levels pq p)) \<le> n)"

text \<open>The cursor update that the scan of \<^verbatim>\<open>getNextItem\<close> and the loop of \<^verbatim>\<open>init\<close>
  share: level \<open>i\<close> becomes the cursor when it beats the cursor and \<open>P\<close> holds of it
  (\<open>P\<close>: the level has items, or the level has keys).\<close>

definition scan_step :: "order \<Rightarrow> (u8 \<Rightarrow> bool) \<Rightarrow> nat \<Rightarrow> u8 \<Rightarrow> u8" where
  "scan_step ord P i c = (if more_important ord (of_nat i) c \<and> P (of_nat i) then of_nat i else c)"

definition has_keys :: "leveldb \<Rightarrow> u8 \<Rightarrow> bool" where
  "has_keys d p \<longleftrightarrow> iter_keys d (generatePrefix p) \<noteq> []"

text \<open>Recovery of one level in the words of the spec (4.2): with at least one key under
  the prefix, head is the first id minus one and tail the last id; with none, both are 0.\<close>

definition recover_level :: "leveldb \<Rightarrow> u8 \<Rightarrow> priorityLevel" where
  "recover_level d p =
     (let ks = iter_keys d (generatePrefix p)
      in case (iter_First ks, iter_Last ks) of
           (Some k, Some l) \<Rightarrow> \<lparr>head = keyToID (drop 2 k) - 1, tail = keyToID (drop 2 l)\<rparr>
         | _ \<Rightarrow> \<lparr>head = 0, tail = 0\<rparr>)"

text \<open>The value of a byte string read as a big-endian natural number.\<close>

definition be_nat :: "bytes \<Rightarrow> nat" where
  "be_nat bs = foldl (\<lambda>a b. a * 256 + unat b) 0 bs"

text \<open>A store as the queue itself writes it: every key is \<open>generateKey p i\<close> for a
  priority \<open>p\<close> and an id \<open>i\<close> from 1 up to \<open>n\<close>.\<close>

definition ids_within :: "leveldb \<Rightarrow> nat \<Rightarrow> bool" where
  "ids_within d n \<longleftrightarrow>
     (\<forall>k \<in> fst ` set d. \<exists>p i. k = generateKey p i \<and> i \<noteq> 0 \<and> unat i \<le> n)"

text \<open>The number of items the counters account for, as a natural number (no wrap-around).\<close>

definition item_count :: "PriorityQueue \<Rightarrow> nat" where
  "item_count pq = sum_list (map (\<lambda>i. unat (length_pl (levels pq (of_nat i)))) level_range)"

text \<open>The queue holds the FIFO sequences \<open>q\<close>: level \<open>p\<close> has \<open>length (q p)\<close> items
  between head and tail, the store maps the key of the \<open>i\<close>-th of them to \<open>q p ! i\<close>,
  and no level more important than the cursor has items.\<close>

definition holds :: "PriorityQueue \<Rightarrow> (u8 \<Rightarrow> bytes list) \<Rightarrow> bool" where
  "holds pq q \<longleftrightarrow>
     (\<forall>p. unat (head (levels pq p)) + length (q p) = unat (tail (levels pq p))) \<and>
     (\<forall>p i. i < length (q p) \<longrightarrow>
        map_of (db pq) (generateKey p (head (levels pq p) + 1 + of_nat i)) = Some (q p ! i)) \<and>
     cursor_inv pq"

text \<open>The queue a new, empty directory opens to.\<close>

definition emptyQueue :: "string \<Rightarrow> order \<Rightarrow> PriorityQueue" where
  "emptyQueue dir ord =
     \<lparr>DataDir = dir, db = [], order = ord, levels = (\<lambda>_. \<lparr>head = 0, tail = 0\<rparr>),
      curLevel = (if ord = ASC then 255 else 0), isOpen = True\<rparr>"

text \<open>An item as the caller hands it to \<^verbatim>\<open>Enqueue\<close>: id and key not yet assigned.\<close>

definition newItem :: "u8 \<Rightarrow> bytes \<Rightarrow> PriorityItem" where
  "newItem p v = \<lparr>ID = 0, Priority = p, Key = [], Value = v\<rparr>"

text \<open>Scenario A of the spec: priorities 5, 1, 5 with the values "a", "b", "c".\<close>

definition scenarioA :: "PriorityItem list" where
  "scenarioA = [newItem 5 [0x61], newItem 1 [0x62], newItem 5 [0x63]]"

text \<open>Two items on level 5, the first of them dequeued, then one item on level 1.\<close>

definition drained_then_preempted :: PriorityQueue where
  "drained_then_preempted =
     run [CallEnqueue True (newItem 5 [0x61]), CallEnqueue True (newItem 5 [0x62]),
          CallDequeue True True, CallEnqueue True (newItem 1 [0x63])] (emptyQueue [] ASC)"

text \<open>One item on level 1, enqueued and dequeued again: the cursor rests on the drained
  level 1.\<close>

definition drained_level :: PriorityQueue where
  "drained_level =
     run [CallEnqueue True (newItem 1 [0x61]), CallDequeue True True] (emptyQueue [] ASC)"

text \<open>One item on level 1 and one on level 5, the first dequeued: the cursor rests on the
  drained level 1 while level 5 still holds an item.\<close>

definition drained_with_backlog :: PriorityQueue where
  "drained_with_backlog =
     run [CallEnqueue True (newItem 1 [0x61]), CallEnqueue True (newItem 5 [0x62]),
          CallDequeue True True] (emptyQueue [] ASC)"

text \<open>A store with the ids 3 and 4 on level 5 and the id 7 on level 1.\<close>

definition stored :: leveldb where
  "stored = [(generateKey 5 4, [0x62]), (generateKey 1 7, [0x63]), (generateKey 5 3, [0x61])]"

text \<open>The queue record over that store as \<^verbatim>\<open>OpenPriorityQueue\<close> hands it to \<^verbatim>\<open>init\<close>.\<close>

definition unrecovered :: PriorityQueue where
  "unrecovered =
     \<lparr>DataDir = [], db = stored, order = ASC, levels = (\<lambda>_. \<lparr>head = 0, tail = 0\<rparr>),
      curLevel = 0, isOpen = True\<rparr>"

text \<open>One call of every kind, some with a failing store.\<close>

definition sample_calls :: "call list" where
  "sample_calls =
     [CallEnqueue True (newItem 5 [0x61]), CallEnqueue False (newItem 0 [0x62]),
      CallPeek True, CallDequeue True False, CallDequeue True True,
      CallEnqueue True (newItem 7 [0x63]), CallDequeueByPriority True True 5,
      CallPeekByOffset True 0, CallPeekByPriorityID True 5 4,
      CallUpdate True (newItem 7 [0x64]) [0x65], CallDequeue False True]"

section \<open>Frame and shape lemmas\<close>

lemma getNextItem_step_frame:
  "levels (getNextItem_step i pq) = levels pq"
  "db (getNextItem_step i pq) = db pq"
  "order (getNextItem_step i pq) = order pq"
  by (simp_all add: getNextItem_step_def)

lemma scan_frame:
  "levels (fold getNextItem_step xs pq) = levels pq \<and>
   db (fold getNextItem_step xs pq) = db pq \<and>
   order (fold getNextItem_step xs pq) = order pq"
  by (induction xs arbitrary: pq) (simp_all add: getNextItem_step_frame)

lemma resetCurrentLevel_frame:
  "levels (resetCurrentLevel pq) = levels pq"
  "db (resetCurrentLevel pq) = db pq"
  "order (resetCurrentLevel pq) = order pq"
  by (simp_all add: resetCurrentLevel_def)

lemma getItemByPriorityID_cong:
  "levels pq' = levels pq \<Longrightarrow> db pq' = db pq \<Longrightarrow>
   getItemByPriorityID ok pq' p i = getItemByPriorityID ok pq p i"
  by (simp add: getItemByPriorityID_def)

text \<open>What \<^verbatim>\<open>getNextItem\<close> leaves behind: only the cursor may differ, and the result is
  the head item of the level the cursor ends on.\<close>

lemma getNextItem_shape:
  assumes "getNextItem ok pq = (pq1, r)"
  shows "levels pq1 = levels pq" and "db pq1 = db pq" and "order pq1 = order pq"
    and "r = (if length_pl (levels pq1 (curLevel pq1)) = 0 then (None, Some ErrEmpty)
              else getItemByPriorityID ok pq1 (curLevel pq1)
                     (head (levels pq1 (curLevel pq1)) + 1))"
    and "length_pl (levels pq (curLevel pq)) \<noteq> 0 \<Longrightarrow> pq1 = pq"
  using assms
  by (auto simp: getNextItem_def Let_def scan_frame resetCurrentLevel_frame
      split: if_splits)

lemma getNextItem_nonempty:
  "length_pl (levels pq (curLevel pq)) \<noteq> 0 \<Longrightarrow>
   getNextItem ok pq =
     (pq, getItemByPriorityID ok pq (curLevel pq) (head (levels pq (curLevel pq)) + 1))"
  by (simp add: getNextItem_def)

lemma getItemByPriorityID_Some:
  assumes "getItemByPriorityID ok pq p i = (Some it, e)"
  shows "length_pl (levels pq p) \<noteq> 0" and "head (levels pq p) < i" and "i \<le> tail (levels pq p)"
    and "ID it = i" and "Priority it = p" and "Key it = generateKey p i"
  using assms
  by (auto simp: getItemByPriorityID_def Let_def split: if_splits prod.splits)

lemma getItemByPriorityID_None:
  "getItemByPriorityID ok pq p i = (None, e) \<Longrightarrow> e \<noteq> None"
  by (auto simp: getItemByPriorityID_def Let_def split: if_splits prod.splits)

section \<open>The key codec is injective\<close>

lemma byte_bit:
  "bit (ucast (drop_bit (8 * k) (i :: u64)) :: u8) m \<longleftrightarrow> m < 8 \<and> bit i (8 * k + m)"
  by (auto simp: bit_simps)

lemma idToKey_inj:
  assumes "idToKey i = idToKey j"
  shows "i = j"
proof (rule bit_word_eqI)
  fix n assume n: "n < LENGTH(64)"
  from assms have "\<forall>k \<in> set [7, 6, 5, 4, 3, 2, 1, 0 :: nat].
      (ucast (drop_bit (8 * k) i) :: u8) = ucast (drop_bit (8 * k) j)"
    unfolding idToKey_def map_eq_conv .
  moreover from n have "n div 8 \<in> set [7, 6, 5, 4, 3, 2, 1, 0 :: nat]"
    by simp arith
  ultimately have "(ucast (drop_bit (8 * (n div 8)) i) :: u8) = ucast (drop_bit (8 * (n div 8)) j)"
    by blast
  then have "bit (ucast (drop_bit (8 * (n div 8)) i) :: u8) (n mod 8)
           \<longleftrightarrow> bit (ucast (drop_bit (8 * (n div 8)) j) :: u8) (n mod 8)"
    by simp
  then show "bit i n \<longleftrightarrow> bit j n"
    by (simp add: byte_bit)
qed

lemma generateKey_inj:
  "generateKey p i = generateKey q j \<longleftrightarrow> p = q \<and> i = j"
  by (auto simp: generateKey_def generatePrefix_def idToKey_def [of i] idToKey_def [of j]
      intro: idToKey_inj [unfolded idToKey_def])

lemma generateKey_prefix:
  "take 2 (generateKey p i) = generatePrefix p" "length (generateKey p i) = 10"
  by (simp_all add: generateKey_def generatePrefix_def idToKey_def)

section \<open>The cursor scan\<close>

lemma u8_of_nat_unat: "unat (of_nat i :: u8) = i" if "i < 256"
  using that by (simp add: unat_of_nat)

lemma u8_unat_less: "unat (p :: u8) < 256"
  using unsigned_less [of p, where 'a = nat] by simp

lemma scan_asc:
  assumes "n \<le> 256"
  shows "fold (scan_step ASC P) [0..<n] c0 \<le> c0 \<and>
         (fold (scan_step ASC P) [0..<n] c0 = c0 \<or>
            P (fold (scan_step ASC P) [0..<n] c0) \<and> unat (fold (scan_step ASC P) [0..<n] c0) < n) \<and>
         (\<forall>i<n. P (of_nat i) \<longrightarrow> fold (scan_step ASC P) [0..<n] c0 \<le> of_nat i)"
  using assms
proof (induction n)
  case 0
  then show ?case by simp
next
  case (Suc n)
  let ?c = "fold (scan_step ASC P) [0..<n] c0"
  from Suc have IH: "?c \<le> c0" "?c = c0 \<or> P ?c \<and> unat ?c < n"
    "\<forall>i<n. P (of_nat i) \<longrightarrow> ?c \<le> of_nat i" and n: "n < 256"
    by simp_all
  have un: "unat (of_nat n :: u8) = n" using n by (rule u8_of_nat_unat)
  show ?case
  proof (cases "more_important ASC (of_nat n) ?c \<and> P (of_nat n)")
    case True
    then have lt: "(of_nat n :: u8) < ?c" and Pn: "P (of_nat n)"
      by (simp_all add: more_important_def ASC_def DESC_def)
    have new: "fold (scan_step ASC P) [0..<Suc n] c0 = of_nat n"
      using True by (simp add: scan_step_def)
    have "\<forall>i<Suc n. P (of_nat i) \<longrightarrow> (of_nat n :: u8) \<le> of_nat i"
    proof (intro allI impI)
      fix i assume i: "i < Suc n" and Pi: "P (of_nat i)"
      show "(of_nat n :: u8) \<le> of_nat i"
      proof (cases "i = n")
        case True then show ?thesis by simp
      next
        case False
        with i have "i < n" by simp
        with IH(3) Pi have "?c \<le> of_nat i" by blast
        with lt have "(of_nat n :: u8) < of_nat i" by simp
        then show ?thesis by simp
      qed
    qed
    with lt IH(1) Pn un show ?thesis
      unfolding new by auto
  next
    case False
    then have same: "fold (scan_step ASC P) [0..<Suc n] c0 = ?c"
      by (auto simp: scan_step_def)
    from False have last: "P (of_nat n) \<longrightarrow> ?c \<le> of_nat n"
      by (auto simp: more_important_def)
    have "\<forall>i<Suc n. P (of_nat i) \<longrightarrow> ?c \<le> of_nat i"
      using IH(3) last by (auto simp: less_Suc_eq)
    with IH show ?thesis
      unfolding same by auto
  qed
qed

lemma scan_desc:
  assumes "n \<le> 256"
  shows "c0 \<le> fold (scan_step DESC P) [0..<n] c0 \<and>
         (fold (scan_step DESC P) [0..<n] c0 = c0 \<or> P (fold (scan_step DESC P) [0..<n] c0)) \<and>
         (\<forall>i<n. P (of_nat i) \<longrightarrow> of_nat i \<le> fold (scan_step DESC P) [0..<n] c0)"
  using assms
proof (induction n)
  case 0
  then show ?case by simp
next
  case (Suc n)
  let ?c = "fold (scan_step DESC P) [0..<n] c0"
  from Suc have IH: "c0 \<le> ?c" "?c = c0 \<or> P ?c"
    "\<forall>i<n. P (of_nat i) \<longrightarrow> of_nat i \<le> ?c" and n: "n < 256"
    by simp_all
  show ?case
  proof (cases "more_important DESC (of_nat n) ?c \<and> P (of_nat n)")
    case True
    then have lt: "?c < (of_nat n :: u8)" and Pn: "P (of_nat n)"
      by (simp_all add: more_important_def ASC_def DESC_def)
    have new: "fold (scan_step DESC P) [0..<Suc n] c0 = of_nat n"
      using True by (simp add: scan_step_def)
    have "\<forall>i<Suc n. P (of_nat i) \<longrightarrow> (of_nat i :: u8) \<le> of_nat n"
    proof (intro allI impI)
      fix i assume i: "i < Suc n" and Pi: "P (of_nat i)"
      then have "i \<le> n" by simp
      with n have "unat (of_nat i :: u8) \<le> unat (of_nat n :: u8)"
        by (simp add: u8_of_nat_unat)
      then show "(of_nat i :: u8) \<le> of_nat n"
        by (simp add: word_le_nat_alt)
    qed
    with lt IH(1) Pn show ?thesis
      unfolding new by auto
  next
    case False
    then have same: "fold (scan_step DESC P) [0..<Suc n] c0 = ?c"
      by (auto simp: scan_step_def)
    from False have last: "P (of_nat n) \<longrightarrow> of_nat n \<le> ?c"
      by (auto simp: more_important_def)
    have "\<forall>i<Suc n. P (of_nat i) \<longrightarrow> of_nat i \<le> ?c"
      using IH(3) last by (auto simp: less_Suc_eq)
    with IH show ?thesis
      unfolding same by auto
  qed
qed

lemma scan_other:
  "ord \<noteq> ASC \<Longrightarrow> ord \<noteq> DESC \<Longrightarrow> fold (scan_step ord P) xs c0 = c0"
  by (induction xs arbitrary: c0) (simp_all add: scan_step_def more_important_def)

text \<open>The scan over all 256 levels, started from the least important level, ends on the
  most important level of which \<open>P\<close> holds, and stays put when there is none.\<close>

lemma scan_range_asc:
  "(\<forall>p. P p \<longrightarrow> fold (scan_step ASC P) level_range 255 \<le> p) \<and>
   (P (fold (scan_step ASC P) level_range 255) \<or> fold (scan_step ASC P) level_range 255 = 255)"
proof -
  note s = scan_asc [of 256 P 255, folded level_range_def]
  have "\<forall>p. P p \<longrightarrow> fold (scan_step ASC P) level_range 255 \<le> p"
  proof (intro allI impI)
    fix p :: u8 assume "P p"
    then have "P (of_nat (unat p))" by simp
    with s u8_unat_less [of p] have "fold (scan_step ASC P) level_range 255 \<le> of_nat (unat p)"
      by blast
    then show "fold (scan_step ASC P) level_range 255 \<le> p" by simp
  qed
  with s show ?thesis by auto
qed

lemma scan_range_desc:
  "(\<forall>p. P p \<longrightarrow> p \<le> fold (scan_step DESC P) level_range 0) \<and>
   (P (fold (scan_step DESC P) level_range 0) \<or> fold (scan_step DESC P) level_range 0 = 0)"
proof -
  note s = scan_desc [of 256 0 P, folded level_range_def]
  have "\<forall>p. P p \<longrightarrow> p \<le> fold (scan_step DESC P) level_range 0"
  proof (intro allI impI)
    fix p :: u8 assume "P p"
    then have "P (of_nat (unat p))" by simp
    with s u8_unat_less [of p] have "of_nat (unat p) \<le> fold (scan_step DESC P) level_range 0"
      by blast
    then show "p \<le> fold (scan_step DESC P) level_range 0" by simp
  qed
  with s show ?thesis by auto
qed

lemma getNextItem_scan_cursor:
  "curLevel (fold getNextItem_step xs pq) =
     fold (scan_step (order pq) (\<lambda>p. length_pl (levels pq p) > 0)) xs (curLevel pq)"
proof (induction xs arbitrary: pq)
  case Nil
  then show ?case by simp
next
  case (Cons i xs)
  have "curLevel (getNextItem_step i pq) =
        scan_step (order pq) (\<lambda>p. length_pl (levels pq p) > 0) i (curLevel pq)"
    by (auto simp: getNextItem_step_def scan_step_def more_important_def cmpAsc_def cmpDesc_def)
  with Cons [of "getNextItem_step i pq"] show ?case
    by (simp add: getNextItem_step_def)
qed

section \<open>Recovery on open\<close>

lemma iter_First_None: "iter_First ks = None \<longleftrightarrow> ks = []"
  by (simp add: iter_First_def split: list.splits)

lemma iter_Last_None: "iter_Last ks = None \<longleftrightarrow> ks = []"
  by (simp add: iter_Last_def split: list.splits)

lemma iter_First_simps:
  "iter_First [] = None" "iter_First (k # ks) = Some (fold min ks k)"
  "iter_Last [] = None" "iter_Last (k # ks) = Some (fold max ks k)"
  by (simp_all add: iter_First_def iter_Last_def)

lemma init_step_Inr:
  assumes "init_step iter_ok i pq = Inr pq1"
  shows "db pq1 = db pq" and "order pq1 = order pq" and "DataDir pq1 = DataDir pq"
    and "isOpen pq1 = isOpen pq"
    and "levels pq1 = (levels pq)(of_nat i := recover_level (db pq) (of_nat i))"
    and "curLevel pq1 = scan_step (order pq) (has_keys (db pq)) i (curLevel pq)"
    and "iter_ok (of_nat i)"
proof -
  show "iter_ok (of_nat i)"
    using assms by (simp add: init_step_def Let_def split: prod.splits if_splits)
  show "db pq1 = db pq" "order pq1 = order pq" "DataDir pq1 = DataDir pq" "isOpen pq1 = isOpen pq"
    "levels pq1 = (levels pq)(of_nat i := recover_level (db pq) (of_nat i))"
    "curLevel pq1 = scan_step (order pq) (has_keys (db pq)) i (curLevel pq)"
    using assms
    by (cases "iter_keys (db pq) (generatePrefix (of_nat i))";
        auto simp: init_step_def recover_level_def Let_def scan_step_def has_keys_def
          more_important_def cmpAsc_def cmpDesc_def iter_First_simps split: if_splits)+
qed

lemma init_step_ok:
  "iter_ok (of_nat i) \<Longrightarrow> \<exists>pq1. init_step iter_ok i pq = Inr pq1"
  by (simp add: init_step_def Let_def split: option.splits prod.splits)

lemma init_loop_snoc:
  "init_loop iter_ok (xs @ [i]) pq =
     (case init_loop iter_ok xs pq of Inl e \<Rightarrow> Inl e | Inr pq1 \<Rightarrow> init_step iter_ok i pq1)"
  by (induction xs arbitrary: pq) (simp_all split: sum.splits)

lemma init_loop_upto:
  assumes "init_loop iter_ok [0..<n] pq = Inr pq'" and "n \<le> 256"
  shows "db pq' = db pq \<and> order pq' = order pq \<and> DataDir pq' = DataDir pq \<and>
         isOpen pq' = isOpen pq \<and>
         (\<forall>p. levels pq' p = (if unat p < n then recover_level (db pq) p else levels pq p)) \<and>
         curLevel pq' = fold (scan_step (order pq) (has_keys (db pq))) [0..<n] (curLevel pq) \<and>
         (\<forall>p. unat p < n \<longrightarrow> iter_ok p)"
  using assms
proof (induction n arbitrary: pq')
  case 0
  then show ?case by simp
next
  case (Suc n)
  from Suc.prems(1) obtain pq1 where
    one: "init_loop iter_ok [0..<n] pq = Inr pq1" and two: "init_step iter_ok n pq1 = Inr pq'"
    by (auto simp: init_loop_snoc split: sum.splits)
  from Suc.prems(2) have n: "n < 256" by simp
  note IH = Suc.IH [OF one] and st = init_step_Inr [OF two]
  from IH n have IH': "db pq1 = db pq" "order pq1 = order pq" "DataDir pq1 = DataDir pq"
    "isOpen pq1 = isOpen pq"
    "\<forall>p. levels pq1 p = (if unat p < n then recover_level (db pq) p else levels pq p)"
    "curLevel pq1 = fold (scan_step (order pq) (has_keys (db pq))) [0..<n] (curLevel pq)"
    "\<forall>p. unat p < n \<longrightarrow> iter_ok p"
    by simp_all
  have un: "unat (of_nat n :: u8) = n" using n by (rule u8_of_nat_unat)
  have eq_n: "p = of_nat n \<longleftrightarrow> unat p = n" for p :: u8
    using un by (auto simp: word_unat_eq_iff)
  have lv: "\<forall>p. levels pq' p = (if unat p < Suc n then recover_level (db pq) p else levels pq p)"
    using st(5) IH'(1,5) by (auto simp: eq_n less_Suc_eq)
  have ok: "\<forall>p. unat p < Suc n \<longrightarrow> iter_ok p"
    using st(7) IH'(7) by (auto simp: less_Suc_eq eq_n [symmetric])
  show ?case
    using st(1-4,6) IH'(1-4,6) lv ok by simp
qed

lemma init_loop_total:
  "(\<forall>i \<in> set xs. iter_ok (of_nat i)) \<Longrightarrow> \<exists>pq'. init_loop iter_ok xs pq = Inr pq'"
proof (induction xs arbitrary: pq)
  case Nil
  then show ?case by simp
next
  case (Cons i xs)
  then obtain pq1 where "init_step iter_ok i pq = Inr pq1"
    using init_step_ok [of iter_ok i pq] by auto
  with Cons show ?case by simp
qed

text \<open>What a successful \<^verbatim>\<open>init\<close> leaves: every level recovered from the store, the cursor
  scanned over the levels that have keys.\<close>

lemma init_Inr:
  assumes "init iter_ok pq = Inr pq'"
  shows "db pq' = db pq" and "order pq' = order pq" and "DataDir pq' = DataDir pq"
    and "isOpen pq' = isOpen pq"
    and "levels pq' = recover_level (db pq)"
    and "curLevel pq' = fold (scan_step (order pq) (has_keys (db pq))) level_range
                          (curLevel (resetCurrentLevel pq))"
    and "iter_ok p"
proof -
  from assms have "init_loop iter_ok [0..<256] (resetCurrentLevel pq) = Inr pq'"
    by (simp only: init_def level_range_def)
  note l = init_loop_upto [OF this, simplified resetCurrentLevel_frame, folded level_range_def]
  from l show "db pq' = db pq" "order pq' = order pq" 
    "curLevel pq' = fold (scan_step (order pq) (has_keys (db pq))) level_range
                          (curLevel (resetCurrentLevel pq))"
    by simp_all
  from l show "DataDir pq' = DataDir pq" "isOpen pq' = isOpen pq"
    by (simp_all add: resetCurrentLevel_def)
  from l u8_unat_less show "levels pq' = recover_level (db pq)" 
    by (intro ext) simp
  from l u8_unat_less [of p] show "iter_ok p" by simp
qed

lemma init_total:
  "(\<forall>p. iter_ok p) \<Longrightarrow> \<exists>pq'. init iter_ok pq = Inr pq'"
  by (simp add: init_def init_loop_total)

lemma scan_none:
  "(\<forall>p. \<not> P p) \<Longrightarrow> fold (scan_step ord P) xs c = c"
  by (induction xs arbitrary: c) (simp_all add: scan_step_def)

lemma recover_level_empty: "recover_level [] p = \<lparr>head = 0, tail = 0\<rparr>"
  by (simp add: recover_level_def iter_keys_def iter_First_simps)

lemma OpenPriorityQueue_Inr:
  assumes "OpenPriorityQueue dir ord opened checked iter_ok = Inr pq0"
  shows "\<exists>store. opened = Inr store \<and> checked = Inr True \<and>
           init iter_ok \<lparr>DataDir = dir, db = store, order = ord,
             levels = (\<lambda>_. \<lparr>head = 0, tail = 0\<rparr>), curLevel = 0, isOpen = True\<rparr> = Inr pq0"
  using assms by (auto simp: OpenPriorityQueue_def split: sum.splits if_splits)

lemma open_total:
  "\<forall>p. iter_ok p \<Longrightarrow>
   \<exists>pq0. OpenPriorityQueue dir ord (Inr store) (Inr True) iter_ok = Inr pq0"
  by (simp add: OpenPriorityQueue_def init_total)

lemma open_empty:
  assumes "\<forall>p. iter_ok p"
  shows "OpenPriorityQueue dir ord (Inr []) (Inr True) iter_ok = Inr (emptyQueue dir ord)"
proof -
  let ?pq = "\<lparr>DataDir = dir, db = [], order = ord,
       levels = (\<lambda>_. \<lparr>head = 0, tail = 0\<rparr>), curLevel = 0, isOpen = True\<rparr>"
  from assms obtain pq' where i: "init iter_ok ?pq = Inr pq'"
    using init_total by blast
  note r = init_Inr [OF i]
  have "levels pq' = (\<lambda>_. \<lparr>head = 0, tail = 0\<rparr>)"
    using r(5) by (simp add: recover_level_empty fun_eq_iff)
  moreover have "curLevel pq' = (if ord = ASC then 255 else 0)"
    using r(6) by (simp add: scan_none has_keys_def iter_keys_def resetCurrentLevel_def)
  ultimately have "pq' = emptyQueue dir ord"
    using r(1-4) by (simp add: emptyQueue_def)
  with i show ?thesis by (simp add: OpenPriorityQueue_def)
qed

section \<open>Offsets beyond the length\<close>

lemma Length_fold_unat:
  "unat acc + sum_list (map (\<lambda>i. unat (length_pl (levels pq (of_nat i)))) xs) < 2 ^ 64 \<Longrightarrow>
   unat (fold (\<lambda>i len. len + length_pl (levels pq (of_nat i))) xs acc) =
     unat acc + sum_list (map (\<lambda>i. unat (length_pl (levels pq (of_nat i)))) xs)"
proof (induction xs arbitrary: acc)
  case Nil
  then show ?case by simp
next
  case (Cons i xs)
  let ?l = "length_pl (levels pq (of_nat i))"
  from Cons.prems have "unat acc + unat ?l < 2 ^ LENGTH(64)" by simp
  then have u: "unat (acc + ?l) = unat acc + unat ?l"
    by (simp only: unat_add_lem)
  with Cons.prems Cons.IH [of "acc + ?l"] show ?case by simp
qed

lemma Length_unat:
  "item_count pq < 2 ^ 64 \<Longrightarrow> unat (Length pq) = item_count pq"
  using Length_fold_unat [of 0 pq level_range]
  by (simp add: Length_def item_count_def)

lemma level_le_item_count:
  "unat (length_pl (levels pq p)) \<le> item_count pq"
proof -
  have "unat p \<in> set level_range"
    using u8_unat_less [of p] by (simp add: level_range_def)
  then have "unat (length_pl (levels pq (of_nat (unat p))))
      \<in> set (map (\<lambda>i. unat (length_pl (levels pq (of_nat i)))) level_range)"
    unfolding set_map by (rule imageI)
  then have "unat (length_pl (levels pq (of_nat (unat p)))) \<le> item_count pq"
    unfolding item_count_def by (rule member_le_sum_list) simp
  then show ?thesis by simp
qed

lemma findOffsetAsc_loop_beyond:
  "unat len + sum_list (map (\<lambda>i. unat (length_pl (levels pq (of_nat i)))) xs) \<le> unat offset \<Longrightarrow>
   findOffsetAsc_loop get_ok pq offset xs len priority = (None, Some ErrOutOfBounds)"
proof (induction xs arbitrary: len priority)
  case Nil
  then show ?case by simp
next
  case (Cons i xs)
  let ?l = "length_pl (levels pq (of_nat i))"
  have lt: "unat offset < 2 ^ LENGTH(64)" by (rule unsigned_less)
  show ?case
  proof (cases "of_nat i \<ge> priority \<and> ?l > 0")
    case True
    then have pos: "?l \<noteq> 0" by auto
    then have u1: "unat (?l - 1) = unat ?l - 1" and ge1: "1 \<le> unat ?l"
      by (simp_all add: unat_minus_one unat_gt_0 Suc_le_eq)
    from Cons.prems lt have "unat len + unat ?l < 2 ^ LENGTH(64)" by simp
    then have u2: "unat (len + ?l) = unat len + unat ?l"
      by (simp only: unat_add_lem)
    from Cons.prems lt ge1 u1 have "unat len + unat (?l - 1) < 2 ^ LENGTH(64)" by simp
    then have u3: "unat (len + (?l - 1)) = unat len + unat (?l - 1)"
      by (simp only: unat_add_lem)
    from Cons.prems ge1 u1 u3 have "unat (len + (?l - 1)) < unat offset" by simp
    then have no: "\<not> offset \<le> len + (?l - 1)"
      by (simp add: word_le_nat_alt)
    have "findOffsetAsc_loop get_ok pq offset xs (len + ?l) (of_nat i) = (None, Some ErrOutOfBounds)"
      using Cons.prems u2 by (intro Cons.IH) simp
    with True no show ?thesis by (simp add: Let_def)
  next
    case False
    have "findOffsetAsc_loop get_ok pq offset xs len priority = (None, Some ErrOutOfBounds)"
      using Cons.prems by (intro Cons.IH) simp
    with False show ?thesis by (auto simp: Let_def)
  qed
qed

lemma findOffsetDesc_loop_beyond:
  "unat len + sum_list (map (\<lambda>i. unat (length_pl (levels pq (of_nat i)))) xs) \<le> unat offset \<Longrightarrow>
   findOffsetDesc_loop get_ok pq offset xs len priority = (None, Some ErrOutOfBounds)"
proof (induction xs arbitrary: len priority)
  case Nil
  then show ?case by simp
next
  case (Cons i xs)
  let ?l = "length_pl (levels pq (of_nat i))"
  have lt: "unat offset < 2 ^ LENGTH(64)" by (rule unsigned_less)
  show ?case
  proof (cases "of_nat i \<le> priority \<and> ?l > 0")
    case True
    then have pos: "?l \<noteq> 0" by auto
    then have u1: "unat (?l - 1) = unat ?l - 1" and ge1: "1 \<le> unat ?l"
      by (simp_all add: unat_minus_one unat_gt_0 Suc_le_eq)
    from Cons.prems lt have "unat len + unat ?l < 2 ^ LENGTH(64)" by simp
    then have u2: "unat (len + ?l) = unat len + unat ?l"
      by (simp only: unat_add_lem)
    from Cons.prems lt ge1 u1 have "unat len + unat (?l - 1) < 2 ^ LENGTH(64)" by simp
    then have u3: "unat (len + (?l - 1)) = unat len + unat (?l - 1)"
      by (simp only: unat_add_lem)
    from Cons.prems ge1 u1 u3 have "unat (len + (?l - 1)) < unat offset" by simp
    then have no: "\<not> offset \<le> len + (?l - 1)"
      by (simp add: word_le_nat_alt)
    have "findOffsetDesc_loop get_ok pq offset xs (len + ?l) (of_nat i) = (None, Some ErrOutOfBounds)"
      using Cons.prems u2 by (intro Cons.IH) simp
    with True no show ?thesis by (simp add: Let_def)
  next
    case False
    have "findOffsetDesc_loop get_ok pq offset xs len priority = (None, Some ErrOutOfBounds)"
      using Cons.prems by (intro Cons.IH) simp
    with False show ?thesis by (auto simp: Let_def)
  qed
qed

lemma PeekByOffset_beyond:
  assumes "order pq = ASC \<or> order pq = DESC" and "item_count pq < 2 ^ 64"
    and "Length pq \<le> offset" and "length_pl (levels pq (curLevel pq)) \<noteq> 0"
  shows "PeekByOffset get_ok pq offset = (None, Some ErrOutOfBounds)"
proof -
  let ?l = "length_pl (levels pq (curLevel pq))"
  from assms(2,3) have tot: "item_count pq \<le> unat offset"
    by (simp add: word_le_nat_alt Length_unat)
  from assms(4) have "unat (?l - 1) < unat ?l"
    by (simp add: unat_minus_one unat_gt_0)
  with level_le_item_count [of pq "curLevel pq"] tot have "unat (?l - 1) < unat offset"
    by simp
  then have no: "\<not> offset \<le> ?l - 1"
    by (simp add: word_le_nat_alt)
  have a: "findOffsetAsc get_ok pq offset = (None, Some ErrOutOfBounds)"
    unfolding findOffsetAsc_def
    using tot by (intro findOffsetAsc_loop_beyond) (simp add: item_count_def)
  have d: "findOffsetDesc get_ok pq offset = (None, Some ErrOutOfBounds)"
    unfolding findOffsetDesc_def
    using tot by (intro findOffsetDesc_loop_beyond) (simp add: item_count_def rev_map [symmetric])
  from assms(1) no a d show ?thesis
    by (auto simp: PeekByOffset_def)
qed

lemma PeekByOffset_empty_level:
  "length_pl (levels pq (curLevel pq)) = 0 \<Longrightarrow>
   PeekByOffset get_ok pq offset = (None, Some ErrEmpty)"
  by (simp add: PeekByOffset_def getItemByPriorityID_def)

section \<open>The cursor invariant\<close>

lemma remove_item_cases:
  "fst (remove_item del_ok pq p r) = pq \<or>
   (\<exists>it. r = (Some it, None) \<and> del_ok \<and> snd (remove_item del_ok pq p r) = (Some it, None) \<and>
      fst (remove_item del_ok pq p r) =
        pq\<lparr>db := AList.delete (Key it) (db pq),
           levels := (levels pq)(p := (levels pq p)\<lparr>head := head (levels pq p) + 1\<rparr>)\<rparr>)"
  by (auto simp: remove_item_def db_Delete_def split: prod.splits option.splits)

lemma more_important_trans:
  "more_important ord p q \<Longrightarrow> more_important ord q c \<Longrightarrow> more_important ord p c"
  by (auto simp: more_important_def ASC_def DESC_def)

lemma more_important_irrefl: "\<not> more_important ord p p"
  by (simp add: more_important_def)

lemma Enqueue_fields:
  "order (fst (Enqueue put_ok pq item)) = order pq"
  "levels (fst (Enqueue put_ok pq item)) =
     (if put_ok then (levels pq)(Priority item :=
        (levels pq (Priority item))\<lparr>tail := tail (levels pq (Priority item)) + 1\<rparr>)
      else levels pq)"
  "curLevel (fst (Enqueue put_ok pq item)) =
     (if put_ok \<and> more_important (order pq) (Priority item) (curLevel pq)
      then Priority item else curLevel pq)"
  "db (fst (Enqueue put_ok pq item)) =
     (if put_ok then AList.update (generateKey (Priority item)
          (tail (levels pq (Priority item)) + 1)) (Value item) (db pq)
      else db pq)"
  by (auto simp: Enqueue_def db_Put_def Let_def cmpAsc_def cmpDesc_def more_important_def)

lemma cursor_inv_Enqueue:
  assumes "cursor_inv pq"
  shows "cursor_inv (fst (Enqueue put_ok pq item))"
  unfolding cursor_inv_def
proof (intro allI impI)
  fix p
  let ?pq' = "fst (Enqueue put_ok pq item)"
  assume m: "more_important (order ?pq') p (curLevel ?pq')"
  show "head (levels ?pq' p) = tail (levels ?pq' p)"
  proof (cases put_ok)
    case False
    with m assms show ?thesis
      by (simp add: Enqueue_fields cursor_inv_def)
  next
    case True
    have old: "more_important (order pq) p (curLevel pq)" and ne: "p \<noteq> Priority item"
      using m True more_important_trans [of "order pq" p "Priority item" "curLevel pq"]
        more_important_irrefl [of "order pq" p]
      by (auto simp: Enqueue_fields split: if_splits)
    with assms True show ?thesis
      by (simp add: Enqueue_fields cursor_inv_def)
  qed
qed

lemma getNextItem_cursor:
  "curLevel (fst (getNextItem get_ok pq)) =
     (if length_pl (levels pq (curLevel pq)) = 0
      then fold (scan_step (order pq) (\<lambda>p. 0 < length_pl (levels pq p))) level_range
             (curLevel (resetCurrentLevel pq))
      else curLevel pq)"
  by (simp add: getNextItem_def Let_def getNextItem_scan_cursor resetCurrentLevel_frame)

lemma getNextItem_frame:
  "levels (fst (getNextItem get_ok pq)) = levels pq"
  "db (fst (getNextItem get_ok pq)) = db pq"
  "order (fst (getNextItem get_ok pq)) = order pq"
  by (simp_all add: getNextItem_def Let_def scan_frame resetCurrentLevel_frame)

lemma scan_cursor_inv:
  assumes "c = fold (scan_step ord P) level_range
                 (if ord = ASC then 255 else if ord = DESC then 0 else c0)"
    and "more_important ord p c"
  shows "\<not> P p"
proof (cases "ord = ASC")
  case True
  with assms scan_range_asc [of P] show ?thesis
    by (auto simp: more_important_def ASC_def DESC_def)
next
  case False
  with assms scan_range_desc [of P] show ?thesis
    by (auto simp: more_important_def)
qed

lemma cursor_inv_getNextItem:
  assumes "cursor_inv pq"
  shows "cursor_inv (fst (getNextItem get_ok pq))"
proof (cases "length_pl (levels pq (curLevel pq)) = 0")
  case False
  with assms show ?thesis by (simp add: getNextItem_def)
next
  case True
  let ?P = "\<lambda>p. 0 < length_pl (levels pq p)"
  have c: "curLevel (fst (getNextItem get_ok pq)) = fold (scan_step (order pq) ?P) level_range
             (if order pq = ASC then 255 else if order pq = DESC then 0 else curLevel pq)"
    using True by (simp add: getNextItem_cursor resetCurrentLevel_def)
  show ?thesis
    unfolding cursor_inv_def getNextItem_frame
  proof (intro allI impI)
    fix p assume "more_important (order pq) p (curLevel (fst (getNextItem get_ok pq)))"
    with c have "\<not> ?P p" by (rule scan_cursor_inv)
    then show "head (levels pq p) = tail (levels pq p)"
      by (simp add: length_pl_def word_greater_zero_iff)
  qed
qed

lemma cursor_inv_remove_item:
  assumes "cursor_inv pq" and "r = getItemByPriorityID get_ok pq p i"
  shows "cursor_inv (fst (remove_item del_ok pq p r))"
proof -
  from remove_item_cases [of del_ok pq p r] show ?thesis
  proof (elim disjE exE conjE)
    assume "fst (remove_item del_ok pq p r) = pq"
    with assms show ?thesis by simp
  next
    fix it
    assume r: "r = (Some it, None)"
      and f: "fst (remove_item del_ok pq p r) =
        pq\<lparr>db := AList.delete (Key it) (db pq),
           levels := (levels pq)(p := (levels pq p)\<lparr>head := head (levels pq p) + 1\<rparr>)\<rparr>"
    from r assms(2) have "length_pl (levels pq p) \<noteq> 0"
      using getItemByPriorityID_Some(1) [of get_ok pq p i it None] by simp
    then have "head (levels pq p) \<noteq> tail (levels pq p)"
      by (auto simp: length_pl_def)
    with assms(1) have "\<not> more_important (order pq) p (curLevel pq)"
      by (auto simp: cursor_inv_def)
    with assms(1) show ?thesis
      unfolding f cursor_inv_def by auto
  qed
qed

lemma getNextItem_result:
  "snd (getNextItem get_ok pq) =
     (let pq1 = fst (getNextItem get_ok pq)
      in if length_pl (levels pq1 (curLevel pq1)) = 0 then (None, Some ErrEmpty)
         else getItemByPriorityID get_ok pq1 (curLevel pq1)
                (head (levels pq1 (curLevel pq1)) + 1))"
  using getNextItem_shape(4) [of get_ok pq "fst (getNextItem get_ok pq)" "snd (getNextItem get_ok pq)"]
  by (simp add: Let_def)

lemma remove_item_error:
  "remove_item del_ok pq p (None, Some e) = (pq, None, Some e)"
  by (simp add: remove_item_def)

lemma Dequeue_unfold:
  "Dequeue get_ok del_ok pq =
     remove_item del_ok (fst (getNextItem get_ok pq)) (curLevel (fst (getNextItem get_ok pq)))
       (snd (getNextItem get_ok pq))"
  by (simp add: Dequeue_def case_prod_beta)

lemma Dequeue_as_remove:
  "\<exists>i. fst (Dequeue get_ok del_ok pq) =
       fst (remove_item del_ok (fst (getNextItem get_ok pq))
              (curLevel (fst (getNextItem get_ok pq)))
              (getItemByPriorityID get_ok (fst (getNextItem get_ok pq))
                 (curLevel (fst (getNextItem get_ok pq))) i))"
proof (cases "length_pl (levels (fst (getNextItem get_ok pq))
                (curLevel (fst (getNextItem get_ok pq)))) = 0")
  case True
  then have "snd (getNextItem get_ok pq) = (None, Some ErrEmpty)"
    by (simp add: getNextItem_result)
  moreover have "getItemByPriorityID get_ok (fst (getNextItem get_ok pq))
              (curLevel (fst (getNextItem get_ok pq))) 0 = (None, Some ErrEmpty)"
    using True by (simp add: getItemByPriorityID_def)
  ultimately have "fst (Dequeue get_ok del_ok pq) =
       fst (remove_item del_ok (fst (getNextItem get_ok pq))
              (curLevel (fst (getNextItem get_ok pq)))
              (getItemByPriorityID get_ok (fst (getNextItem get_ok pq))
                 (curLevel (fst (getNextItem get_ok pq))) 0))"
    by (simp add: Dequeue_unfold)
  then show ?thesis ..
next
  case False
  then have "fst (Dequeue get_ok del_ok pq) =
       fst (remove_item del_ok (fst (getNextItem get_ok pq))
              (curLevel (fst (getNextItem get_ok pq)))
              (getItemByPriorityID get_ok (fst (getNextItem get_ok pq))
                 (curLevel (fst (getNextItem get_ok pq)))
                 (head (levels (fst (getNextItem get_ok pq))
                    (curLevel (fst (getNextItem get_ok pq)))) + 1)))"
    by (simp add: Dequeue_unfold getNextItem_result [of get_ok pq] Let_def)
  then show ?thesis ..
qed

lemma cursor_inv_exec:
  assumes "cursor_inv pq"
  shows "cursor_inv (exec c pq)"
proof (cases c)
  case (CallEnqueue put_ok item)
  with assms show ?thesis by (simp add: cursor_inv_Enqueue)
next
  case (CallDequeue get_ok del_ok)
  from Dequeue_as_remove [of get_ok del_ok pq] cursor_inv_getNextItem [OF assms, of get_ok]
  show ?thesis
    unfolding CallDequeue by (auto intro: cursor_inv_remove_item)
next
  case (CallDequeueByPriority get_ok del_ok p)
  with assms show ?thesis
    by (auto simp: DequeueByPriority_def intro: cursor_inv_remove_item)
next
  case (CallPeek get_ok)
  with assms show ?thesis by (simp add: Peek_def cursor_inv_getNextItem)
next
  case (CallUpdate put_ok item v)
  with assms show ?thesis
    by (simp add: Update_def db_Put_def cursor_inv_def Let_def split: prod.splits)
qed (use assms in simp_all)

lemma cursor_inv_run:
  "cursor_inv pq \<Longrightarrow> cursor_inv (run cs pq)"
  unfolding run_def by (induction cs arbitrary: pq) (simp_all add: cursor_inv_exec)

lemma cursor_inv_init:
  assumes "init iter_ok pq = Inr pq'"
  shows "cursor_inv pq'"
  unfolding cursor_inv_def
proof (intro allI impI)
  note r = init_Inr [OF assms]
  fix p assume "more_important (order pq') p (curLevel pq')"
  then have m: "more_important (order pq) p (curLevel pq')"
    by (simp add: r(2))
  have c: "curLevel pq' = fold (scan_step (order pq) (has_keys (db pq))) level_range
             (if order pq = ASC then 255 else if order pq = DESC then 0 else curLevel pq)"
    using r(6) by (simp add: resetCurrentLevel_def)
  from c m have "\<not> has_keys (db pq) p"
    by (rule scan_cursor_inv)
  then show "head (levels pq' p) = tail (levels pq' p)"
    by (simp add: r(5) recover_level_def has_keys_def iter_First_simps)
qed

section \<open>The counters invariant\<close>

lemma counters_ok_mono: "counters_ok n pq \<Longrightarrow> n \<le> m \<Longrightarrow> counters_ok m pq"
  by (auto simp: counters_ok_def intro: order_trans)

lemma counters_ok_cong:
  "levels pq' = levels pq \<Longrightarrow> counters_ok n pq' = counters_ok n pq"
  by (simp add: counters_ok_def)

lemma counters_ok_Enqueue:
  assumes "counters_ok n pq" and "Suc n < 2 ^ 64"
  shows "counters_ok (Suc n) (fst (Enqueue put_ok pq item))"
proof (cases put_ok)
  case False
  with assms(1) show ?thesis
    by (auto simp: counters_ok_def Enqueue_fields intro: le_SucI)
next
  case True
  let ?t = "tail (levels pq (Priority item))"
  from assms have t: "unat ?t \<le> n" and h: "head (levels pq (Priority item)) \<le> ?t"
    by (simp_all add: counters_ok_def)
  from t assms(2) have "unat ?t + unat (1 :: u64) < 2 ^ LENGTH(64)" by simp
  then have u: "unat (?t + 1) = unat ?t + 1"
    by (simp only: unat_add_lem) simp
  with h have "head (levels pq (Priority item)) \<le> ?t + 1"
    by (simp add: word_le_nat_alt)
  with assms(1) u t True show ?thesis
    by (auto simp: counters_ok_def Enqueue_fields intro: le_SucI)
qed

lemma counters_ok_remove_item:
  assumes "counters_ok n pq" and "r = getItemByPriorityID get_ok pq p (head (levels pq p) + 1)"
  shows "counters_ok n (fst (remove_item del_ok pq p r))"
proof -
  from remove_item_cases [of del_ok pq p r] show ?thesis
  proof (elim disjE exE conjE)
    assume "fst (remove_item del_ok pq p r) = pq"
    with assms show ?thesis by simp
  next
    fix it
    assume r: "r = (Some it, None)"
      and f: "fst (remove_item del_ok pq p r) =
        pq\<lparr>db := AList.delete (Key it) (db pq),
           levels := (levels pq)(p := (levels pq p)\<lparr>head := head (levels pq p) + 1\<rparr>)\<rparr>"
    from r assms(2) have "head (levels pq p) + 1 \<le> tail (levels pq p)"
      using getItemByPriorityID_Some(3) [of get_ok pq p "head (levels pq p) + 1" it None] by simp
    with assms(1) show ?thesis
      unfolding f counters_ok_def by auto
  qed
qed

lemma Dequeue_as_remove_head:
  "fst (Dequeue get_ok del_ok pq) = fst (getNextItem get_ok pq) \<or>
   fst (Dequeue get_ok del_ok pq) =
       fst (remove_item del_ok (fst (getNextItem get_ok pq))
              (curLevel (fst (getNextItem get_ok pq)))
              (getItemByPriorityID get_ok (fst (getNextItem get_ok pq))
                 (curLevel (fst (getNextItem get_ok pq)))
                 (head (levels (fst (getNextItem get_ok pq))
                    (curLevel (fst (getNextItem get_ok pq)))) + 1)))"
  by (simp add: Dequeue_unfold getNextItem_result [of get_ok pq] Let_def remove_item_error)

lemma counters_ok_exec:
  assumes "counters_ok n pq" and "Suc n < 2 ^ 64"
  shows "counters_ok (Suc n) (exec c pq)"
proof (cases c)
  case (CallEnqueue put_ok item)
  with assms show ?thesis by (simp add: counters_ok_Enqueue)
next
  case (CallDequeue get_ok del_ok)
  have g: "counters_ok n (fst (getNextItem get_ok pq))"
    using assms(1) by (simp add: counters_ok_cong [OF getNextItem_frame(1)])
  then have "counters_ok n (fst (Dequeue get_ok del_ok pq))"
    using Dequeue_as_remove_head [of get_ok del_ok pq]
    by (auto intro: counters_ok_remove_item)
  then show ?thesis
    unfolding CallDequeue by (auto intro: counters_ok_mono)
next
  case (CallDequeueByPriority get_ok del_ok p)
  have "counters_ok n (fst (DequeueByPriority get_ok del_ok pq p))"
    using assms(1) by (auto simp: DequeueByPriority_def intro: counters_ok_remove_item)
  then show ?thesis
    unfolding CallDequeueByPriority by (auto intro: counters_ok_mono)
next
  case (CallPeek get_ok)
  with assms(1) show ?thesis
    by (auto simp: Peek_def counters_ok_cong [OF getNextItem_frame(1)] intro: counters_ok_mono)
next
  case (CallUpdate put_ok item v)
  with assms(1) show ?thesis
    by (auto simp: Update_def db_Put_def counters_ok_def Let_def split: prod.splits
        intro: le_SucI)
qed (use assms(1) in \<open>auto intro: counters_ok_mono\<close>)

lemma counters_ok_run:
  "counters_ok n pq \<Longrightarrow> n + length cs < 2 ^ 64 \<Longrightarrow> counters_ok (n + length cs) (run cs pq)"
  unfolding run_def
proof (induction cs arbitrary: pq n)
  case Nil
  then show ?case by simp
next
  case (Cons c cs)
  from Cons.prems have "counters_ok (Suc n) (exec c pq)"
    by (intro counters_ok_exec) simp_all
  with Cons.prems Cons.IH [of "Suc n" "exec c pq"] show ?case by simp
qed

lemma counters_ok_emptyQueue: "counters_ok 0 (emptyQueue dir ord)"
  by (simp add: counters_ok_def emptyQueue_def)

lemma open_empty_is_emptyQueue:
  assumes "OpenPriorityQueue dir ord (Inr []) checked iter_ok = Inr pq0"
  shows "pq0 = emptyQueue dir ord"
proof -
  from OpenPriorityQueue_Inr [OF assms] have c: "checked = Inr True" and "\<forall>p. iter_ok p"
    by (auto dest: init_Inr(7))
  from open_empty [OF this(2), of dir ord] assms show ?thesis by (simp add: c)
qed

lemma order_remove_item: "order (fst (remove_item del_ok pq p r)) = order pq"
  using remove_item_cases [of del_ok pq p r] by auto

lemma order_exec: "order (exec c pq) = order pq"
  by (cases c)
    (simp_all add: Enqueue_fields Dequeue_unfold order_remove_item getNextItem_frame
      DequeueByPriority_def Peek_def Update_def Let_def case_prod_beta)

lemma order_run: "order (run cs pq) = order pq"
  unfolding run_def by (induction cs arbitrary: pq) (simp_all add: order_exec)

section \<open>The queue as FIFO sequences per level\<close>

lemma id_unat:
  assumes "unat h + n = unat (t :: u64)" and "i < n"
  shows "unat (h + 1 + of_nat i :: u64) = unat h + 1 + i"
proof -
  have "unat t < 2 ^ LENGTH(64)" by (rule unsigned_less)
  with assms have b: "unat h + 1 + i < 2 ^ LENGTH(64)" by simp
  have "h + 1 + of_nat i = (of_nat (unat h + 1 + i) :: u64)" by simp
  then have "unat (h + 1 + of_nat i :: u64) = (unat h + 1 + i) mod 2 ^ LENGTH(64)"
    by (simp only: unat_of_nat)
  with b show ?thesis by simp
qed

lemma id_tail:
  assumes "unat h + n = unat (t :: u64)"
  shows "h + of_nat n = t"
proof -
  have "h + of_nat n = (of_nat (unat h + n) :: u64)" by simp
  also have "\<dots> = t" by (simp only: assms) simp
  finally show ?thesis .
qed

lemma holds_counters:
  assumes "holds pq q"
  shows "unat (head (levels pq p)) + length (q p) = unat (tail (levels pq p))"
    and "i < length (q p) \<Longrightarrow>
         map_of (db pq) (generateKey p (head (levels pq p) + 1 + of_nat i)) = Some (q p ! i)"
    and "cursor_inv pq"
  using assms by (simp_all add: holds_def)

lemma holds_empty_iff:
  assumes "holds pq q"
  shows "length_pl (levels pq p) = 0 \<longleftrightarrow> q p = []"
proof -
  from holds_counters(1) [OF assms, of p]
  have "q p = [] \<longleftrightarrow> unat (head (levels pq p)) = unat (tail (levels pq p))"
    by auto
  moreover have "length_pl (levels pq p) = 0 \<longleftrightarrow> tail (levels pq p) = head (levels pq p)"
    by (simp add: length_pl_def)
  moreover have "tail (levels pq p) = head (levels pq p) \<longleftrightarrow>
      unat (tail (levels pq p)) = unat (head (levels pq p))"
    by (rule word_unat_eq_iff)
  ultimately show ?thesis by auto
qed

lemma holds_emptyQueue: "holds (emptyQueue dir ord) (\<lambda>_. [])"
  by (simp add: holds_def emptyQueue_def cursor_inv_def)

lemma holds_Enqueue:
  assumes "holds pq q" and "unat (tail (levels pq (Priority item))) + 1 < 2 ^ 64"
  shows "holds (fst (Enqueue True pq item)) (q(Priority item := q (Priority item) @ [Value item]))"
proof -
  let ?P = "Priority item"
  let ?h = "head (levels pq ?P)" and ?t = "tail (levels pq ?P)"
  let ?K = "generateKey ?P (?t + 1)"
  let ?pq' = "fst (Enqueue True pq item)"
  let ?q' = "q(?P := q ?P @ [Value item])"
  note h = holds_counters [OF assms(1)]
  from assms(2) have "unat ?t + unat (1 :: u64) < 2 ^ LENGTH(64)" by simp
  then have t1: "unat (?t + 1) = unat ?t + 1"
    by (simp only: unat_add_lem) simp
  have A1: "unat (head (levels ?pq' p)) + length (?q' p) = unat (tail (levels ?pq' p))" for p
    using h(1) [of p] t1 by (cases "p = ?P") (simp_all add: Enqueue_fields)
  have A2: "map_of (db ?pq') (generateKey p (head (levels ?pq' p) + 1 + of_nat i)) = Some (?q' p ! i)"
    if i: "i < length (?q' p)" for p i
  proof (cases "p = ?P")
    case False
    with i h(2) [of i p] show ?thesis
      by (simp add: Enqueue_fields update_conv' generateKey_inj)
  next
    case True
    show ?thesis
    proof (cases "i < length (q ?P)")
      case True
      from id_unat [OF h(1) True] t1 h(1) [of ?P] True
      have "unat (?h + 1 + of_nat i) \<noteq> unat (?t + 1)" by simp
      then have "?h + 1 + of_nat i \<noteq> ?t + 1" by (rule contrapos_nn) (rule arg_cong)
      with True h(2) [of i ?P] \<open>p = ?P\<close> show ?thesis
        by (simp add: Enqueue_fields update_conv' generateKey_inj nth_append)
    next
      case False
      with i \<open>p = ?P\<close> have i_eq: "i = length (q ?P)" by simp
      have "?h + 1 + of_nat (length (q ?P)) = (?h + of_nat (length (q ?P))) + 1"
        by simp
      also have "\<dots> = ?t + 1"
        by (simp only: id_tail [OF h(1)])
      finally have ideq: "?h + 1 + of_nat (length (q ?P)) = ?t + 1" .
      have hd': "head (levels ?pq' ?P) = ?h"
        by (simp add: Enqueue_fields)
      show ?thesis
        unfolding \<open>p = ?P\<close> i_eq hd' ideq
        by (simp add: Enqueue_fields update_conv')
    qed
  qed
  have A3: "cursor_inv ?pq'"
    using h(3) by (rule cursor_inv_Enqueue)
  from A1 A2 A3 show ?thesis
    unfolding holds_def by blast
qed

lemma u8_le_255: "(p :: u8) \<le> 255"
  using u8_unat_less [of p] by (simp add: word_le_nat_alt)

text \<open>The level \<^verbatim>\<open>getNextItem\<close> settles on is the most important level that has items.\<close>

lemma getNextItem_picks:
  assumes "holds pq q" and "order pq = ASC \<or> order pq = DESC" and "q p0 \<noteq> []"
  shows "q (curLevel (fst (getNextItem get_ok pq))) \<noteq> [] \<and>
         (\<forall>p'. q p' \<noteq> [] \<longrightarrow>
            \<not> more_important (order pq) p' (curLevel (fst (getNextItem get_ok pq))))"
proof (cases "length_pl (levels pq (curLevel pq)) = 0")
  case False
  then have c: "curLevel (fst (getNextItem get_ok pq)) = curLevel pq"
    by (simp add: getNextItem_def)
  from False have "q (curLevel pq) \<noteq> []"
    by (simp add: holds_empty_iff [OF assms(1)])
  moreover have "q p' = []" if "more_important (order pq) p' (curLevel pq)" for p'
  proof -
    from that holds_counters(3) [OF assms(1)] have "head (levels pq p') = tail (levels pq p')"
      by (simp add: cursor_inv_def)
    with holds_counters(1) [OF assms(1), of p'] show ?thesis by simp
  qed
  ultimately show ?thesis
    unfolding c by blast
next
  case True
  let ?P = "\<lambda>p. 0 < length_pl (levels pq p)"
  let ?c = "curLevel (fst (getNextItem get_ok pq))"
  have P: "?P p \<longleftrightarrow> q p \<noteq> []" for p
    using holds_empty_iff [OF assms(1), of p] by (simp add: word_greater_zero_iff)
  have c: "?c = fold (scan_step (order pq) ?P) level_range
             (if order pq = ASC then 255 else if order pq = DESC then 0 else curLevel pq)"
    using True by (simp add: getNextItem_cursor resetCurrentLevel_def)
  have best: "\<not> more_important (order pq) p' ?c" if "q p' \<noteq> []" for p'
    using scan_cursor_inv [OF c, of p'] that by (auto simp: P)
  have "?P ?c"
  proof (cases "order pq = ASC")
    case True
    with c scan_range_asc [of ?P] have "(\<forall>p. ?P p \<longrightarrow> ?c \<le> p) \<and> (?P ?c \<or> ?c = 255)"
      by simp
    moreover from assms(3) have "?P p0" by (simp add: P)
    ultimately show ?thesis
      using u8_le_255 [of p0] by (auto dest: antisym)
  next
    case False
    with assms(2) have "order pq = DESC" by simp
    with False c scan_range_desc [of ?P] have "(\<forall>p. ?P p \<longrightarrow> p \<le> ?c) \<and> (?P ?c \<or> ?c = 0)"
      by simp
    moreover from assms(3) have "?P p0" by (simp add: P)
    ultimately show ?thesis
      by (auto dest: antisym)
  qed
  with best show ?thesis
    by (auto simp: P)
qed

lemma holds_Dequeue:
  assumes "holds pq q" and "order pq = ASC \<or> order pq = DESC" and "q p0 \<noteq> []"
  shows "\<exists>p pq'. q p \<noteq> [] \<and> (\<forall>p'. q p' \<noteq> [] \<longrightarrow> \<not> more_important (order pq) p' p) \<and>
           Dequeue True True pq =
             (pq', Some \<lparr>ID = head (levels pq p) + 1, Priority = p,
                         Key = generateKey p (head (levels pq p) + 1), Value = hd (q p)\<rparr>, None) \<and>
           holds pq' (q(p := tl (q p))) \<and> order pq' = order pq"
proof -
  define pq1 where "pq1 = fst (getNextItem True pq)"
  define c where "c = curLevel pq1"
  let ?h = "head (levels pq c)" and ?t = "tail (levels pq c)"
  let ?K = "generateKey c (?h + 1)"
  let ?it = "\<lparr>ID = ?h + 1, Priority = c, Key = ?K, Value = hd (q c)\<rparr>"
  define pq' where "pq' = pq1\<lparr>db := AList.delete ?K (db pq1),
      levels := (levels pq1)(c := (levels pq1 c)\<lparr>head := ?h + 1\<rparr>)\<rparr>"
  note h = holds_counters [OF assms(1)]
  have fr: "levels pq1 = levels pq" "db pq1 = db pq" "order pq1 = order pq"
    by (simp_all add: pq1_def getNextItem_frame)
  from getNextItem_picks [OF assms, of True]
  have qc: "q c \<noteq> []" and best: "\<forall>p'. q p' \<noteq> [] \<longrightarrow> \<not> more_important (order pq) p' c"
    by (simp_all add: c_def pq1_def)
  from qc obtain x xs where qx: "q c = x # xs" by (cases "q c") auto
  from qc have len: "0 < length (q c)" by simp
  have ne: "length_pl (levels pq c) \<noteq> 0"
    using qc by (simp add: holds_empty_iff [OF assms(1)])
  have u1: "unat (?h + 1) = unat ?h + 1"
    using id_unat [OF h(1) len] by simp
  have "?h < ?h + 1" and "?h + 1 \<le> ?t"
    using u1 h(1) [of c] by (simp_all add: word_less_nat_alt word_le_nat_alt qx)
  then have bounds: "\<not> (?h + 1 \<le> ?h \<or> ?t < ?h + 1)"
    by auto
  have "map_of (db pq) (generateKey c (?h + 1 + of_nat 0)) = Some (q c ! 0)"
    using len by (rule h(2))
  then have stored: "map_of (db pq) ?K = Some (hd (q c))"
    using qc by (simp add: hd_conv_nth)
  have get: "getItemByPriorityID True pq1 c (?h + 1) = (Some ?it, None)"
    using ne bounds stored by (simp add: getItemByPriorityID_def fr db_Get_def)
  have "snd (getNextItem True pq) = (Some ?it, None)"
    using ne get by (simp add: getNextItem_result [of True pq] Let_def pq1_def [symmetric]
        c_def [symmetric] fr)
  then have deq: "Dequeue True True pq = (pq', Some ?it, None)"
    by (simp add: Dequeue_unfold pq1_def [symmetric] c_def [symmetric] remove_item_def
        db_Delete_def pq'_def fr)
  let ?q' = "q(c := tl (q c))"
  have A1: "unat (head (levels pq' p)) + length (?q' p) = unat (tail (levels pq' p))" for p
    using h(1) [of p] u1 by (cases "p = c") (simp_all add: pq'_def fr qx)
  have A2: "map_of (db pq') (generateKey p (head (levels pq' p) + 1 + of_nat i)) = Some (?q' p ! i)"
    if i: "i < length (?q' p)" for p i
  proof (cases "p = c")
    case False
    with i h(2) [of i p] show ?thesis
      by (simp add: pq'_def fr delete_conv' generateKey_inj)
  next
    case True
    with i have si: "Suc i < length (q c)" by simp
    have "unat (?h + 1 + of_nat (Suc i)) \<noteq> unat (?h + 1)"
      using id_unat [OF h(1) si] u1 by simp
    then have neq: "?h + 1 + of_nat (Suc i) \<noteq> ?h + 1"
      by (rule contrapos_nn) (rule arg_cong)
    have same: "?h + 1 + 1 + of_nat i = ?h + 1 + of_nat (Suc i)"
      by simp
    have hd': "head (levels pq' c) = ?h + 1"
      by (simp add: pq'_def)
    have "map_of (db pq') (generateKey c (?h + 1 + of_nat (Suc i))) = Some (q c ! Suc i)"
      using h(2) [OF si] neq by (simp add: pq'_def fr delete_conv' generateKey_inj)
    then show ?thesis
      unfolding True hd' same using si by (simp add: nth_tl)
  qed
  have "cursor_inv (exec (CallDequeue True True) pq)"
    using h(3) by (rule cursor_inv_exec)
  then have A3: "cursor_inv pq'"
    by (simp add: deq)
  have "holds pq' ?q'"
    using A1 A2 A3 unfolding holds_def by blast
  moreover have "order pq' = order pq"
    by (simp add: pq'_def fr)
  ultimately show ?thesis
    using qc best deq by blast
qed

lemma order_enqueueAll: "order (enqueueAll items pq) = order pq"
  unfolding enqueueAll_def by (induction items arbitrary: pq) (simp_all add: Enqueue_fields)

lemma holds_enqueueAll:
  assumes "holds pq q" and "\<forall>p. unat (tail (levels pq p)) + length items < 2 ^ 64"
  shows "holds (enqueueAll items pq)
           (\<lambda>p. q p @ map Value (filter (\<lambda>it. Priority it = p) items))"
  using assms
proof (induction items arbitrary: pq q)
  case Nil
  then show ?case by (simp add: enqueueAll_def)
next
  case (Cons item items)
  let ?pq1 = "fst (Enqueue True pq item)"
  let ?q1 = "q(Priority item := q (Priority item) @ [Value item])"
  from Cons.prems(2) have "unat (tail (levels pq (Priority item))) + length (item # items) < 2 ^ 64"
    by blast
  then have b: "unat (tail (levels pq (Priority item))) + 1 < 2 ^ 64"
    by simp
  with Cons.prems(1) have h1: "holds ?pq1 ?q1"
    by (rule holds_Enqueue)
  from b have "unat (tail (levels pq (Priority item))) + unat (1 :: u64) < 2 ^ LENGTH(64)"
    by simp
  then have t1: "unat (tail (levels pq (Priority item)) + 1) =
      unat (tail (levels pq (Priority item))) + 1"
    by (simp only: unat_add_lem) simp
  have "\<forall>p. unat (tail (levels ?pq1 p)) + length items < 2 ^ 64"
  proof
    fix p
    from Cons.prems(2) have "unat (tail (levels pq p)) + length (item # items) < 2 ^ 64"
      by blast
    with t1 show "unat (tail (levels ?pq1 p)) + length items < 2 ^ 64"
      by (cases "p = Priority item") (simp_all add: Enqueue_fields)
  qed
  from Cons.IH [OF h1 this]
  have "holds (enqueueAll items ?pq1)
          (\<lambda>p. ?q1 p @ map Value (filter (\<lambda>it. Priority it = p) items))" .
  moreover have "(\<lambda>p. ?q1 p @ map Value (filter (\<lambda>it. Priority it = p) items)) =
      (\<lambda>p. q p @ map Value (filter (\<lambda>it. Priority it = p) (item # items)))"
    by (auto simp: fun_eq_iff)
  moreover have "enqueueAll (item # items) pq = enqueueAll items ?pq1"
    by (simp add: enqueueAll_def)
  ultimately show ?case by simp
qed

lemma sum_length_filter:
  "(\<Sum>p \<in> (UNIV :: u8 set). length (filter (\<lambda>it. f it = p) xs)) = length xs"
proof (induction xs)
  case Nil
  then show ?case by simp
next
  case (Cons x xs)
  have "(\<Sum>p \<in> (UNIV :: u8 set). length (filter (\<lambda>it. f it = p) (x # xs))) =
        (\<Sum>p \<in> (UNIV :: u8 set). (if f x = p then 1 else 0) + length (filter (\<lambda>it. f it = p) xs))"
    by (intro sum.cong) simp_all
  also have "\<dots> = 1 + length xs"
    by (simp only: sum.distrib Cons.IH) simp
  finally show ?case by simp
qed

lemma sum_lengths_pop:
  assumes "q c \<noteq> []" and "(\<Sum>p \<in> (UNIV :: u8 set). length (q p)) = Suc n"
  shows "(\<Sum>p \<in> (UNIV :: u8 set). length ((q(c := tl (q c))) p)) = n"
proof -
  have "(\<Sum>p \<in> (UNIV :: u8 set). length (q p)) =
        length (q c) + (\<Sum>p \<in> UNIV - {c}. length (q p))"
    by (rule sum.remove) simp_all
  moreover have "(\<Sum>p \<in> (UNIV :: u8 set). length ((q(c := tl (q c))) p)) =
        length ((q(c := tl (q c))) c) + (\<Sum>p \<in> UNIV - {c}. length ((q(c := tl (q c))) p))"
    by (rule sum.remove) simp_all
  moreover have "(\<Sum>p \<in> UNIV - {c}. length ((q(c := tl (q c))) p)) =
        (\<Sum>p \<in> UNIV - {c}. length (q p))"
    by (intro sum.cong) simp_all
  ultimately show ?thesis
    using assms by (cases "q c") simp_all
qed



lemma sum_lengths_zero:
  "(\<Sum>p \<in> (UNIV :: u8 set). length (q p)) = 0 \<Longrightarrow> \<forall>p. q p = []"
  using sum_eq_0_iff [of "UNIV :: u8 set" "\<lambda>p. length (q p)"]
  by (simp only: finite length_0_conv) blast

lemma sum_lengths_Suc:
  assumes "(\<Sum>p \<in> (UNIV :: u8 set). length (q p)) = Suc n"
  shows "\<exists>p0. q p0 \<noteq> []"
proof (rule ccontr)
  assume "\<nexists>p0. q p0 \<noteq> []"
  then have "\<And>p. length (q p) = 0" by simp
  then have "(\<Sum>p \<in> (UNIV :: u8 set). length (q p)) = (\<Sum>p \<in> (UNIV :: u8 set). 0)"
    by (simp only:)
  with assms show False by (simp only: sum.neutral_const)
qed

text \<open>Draining a queue that holds \<open>q\<close>: as many items as \<open>q\<close> has, level by level
  in the order of importance, each level in the order of \<open>q\<close>.\<close>

lemma drain_holds:
  assumes "holds pq q" and "order pq = ASC \<or> order pq = DESC"
    and "(\<Sum>p \<in> (UNIV :: u8 set). length (q p)) = n"
  shows "length (drain n pq) = n \<and>
         (\<forall>p. map Value (filter (\<lambda>it. Priority it = p) (drain n pq)) = q p) \<and>
         sorted_wrt (\<lambda>a b. \<not> more_important (order pq) (Priority b) (Priority a)) (drain n pq)"
  using assms
proof (induction n arbitrary: pq q)
  case 0
  then have "\<forall>p. q p = []" by (intro sum_lengths_zero)
  then show ?case by simp
next
  case (Suc n)
  from Suc.prems(3) have "\<exists>p0. q p0 \<noteq> []"
    by (rule sum_lengths_Suc)
  then obtain p0 where "q p0 \<noteq> []" ..
  from holds_Dequeue [OF Suc.prems(1,2) this] obtain c pq' where
    qc: "q c \<noteq> []" and best: "\<forall>p'. q p' \<noteq> [] \<longrightarrow> \<not> more_important (order pq) p' c"
    and deq: "Dequeue True True pq =
             (pq', Some \<lparr>ID = head (levels pq c) + 1, Priority = c,
                         Key = generateKey c (head (levels pq c) + 1), Value = hd (q c)\<rparr>, None)"
    and h': "holds pq' (q(c := tl (q c)))" and o': "order pq' = order pq"
    by blast
  let ?it = "\<lparr>ID = head (levels pq c) + 1, Priority = c,
              Key = generateKey c (head (levels pq c) + 1), Value = hd (q c)\<rparr>"
  let ?q' = "q(c := tl (q c))"
  have d: "drain (Suc n) pq = ?it # drain n pq'"
    by (simp add: deq)
  from Suc.prems(2) o' have ord': "order pq' = ASC \<or> order pq' = DESC" by simp
  from Suc.IH [OF h' ord' sum_lengths_pop [OF qc Suc.prems(3)]]
  have len: "length (drain n pq') = n"
    and fifo: "\<forall>p. map Value (filter (\<lambda>it. Priority it = p) (drain n pq')) = ?q' p"
    and srt: "sorted_wrt (\<lambda>a b. \<not> more_important (order pq) (Priority b) (Priority a)) (drain n pq')"
    by (simp_all add: o')
  have fifo': "map Value (filter (\<lambda>it. Priority it = p) (drain (Suc n) pq)) = q p" for p
    using fifo qc unfolding d by (cases "p = c") auto
  have "\<not> more_important (order pq) (Priority b) c" if "b \<in> set (drain n pq')" for b
  proof -
    from that have "filter (\<lambda>it. Priority it = Priority b) (drain n pq') \<noteq> []"
      by (auto simp: filter_empty_conv)
    with fifo have "?q' (Priority b) \<noteq> []"
      by (metis map_is_Nil_conv)
    then have "q (Priority b) \<noteq> []"
      using qc by (cases "Priority b = c") auto
    with best show ?thesis by blast
  qed
  with srt have "sorted_wrt (\<lambda>a b. \<not> more_important (order pq) (Priority b) (Priority a))
      (drain (Suc n) pq)"
    unfolding d by simp
  with len fifo' show ?case
    unfolding d by simp
qed

section \<open>Big-endian ids: round trip and order\<close>

lemma be_nat_foldl:
  "foldl (\<lambda>a b. a * 256 + unat b) m bs = m * 256 ^ length bs + be_nat (bs :: bytes)"
  unfolding be_nat_def
proof (induction bs arbitrary: m)
  case Nil
  then show ?case by simp
next
  case (Cons b bs)
  define r where "r = foldl (\<lambda>a b. a * 256 + unat b) 0 bs"
  have e1: "foldl (\<lambda>a b. a * 256 + unat b) (m * 256 + unat b) bs =
      (m * 256 + unat b) * 256 ^ length bs + r"
    unfolding r_def by (rule Cons.IH)
  have e2: "foldl (\<lambda>a b. a * 256 + unat b) (unat b) bs = unat b * 256 ^ length bs + r"
    unfolding r_def by (rule Cons.IH)
  have "foldl (\<lambda>a b. a * 256 + unat b) m (b # bs) =
      (m * 256 + unat b) * 256 ^ length bs + r"
    using e1 by simp
  moreover have "foldl (\<lambda>a b. a * 256 + unat b) 0 (b # bs) = unat b * 256 ^ length bs + r"
    using e2 by simp
  ultimately show ?case
    by (simp only: length_Cons power_Suc) (simp add: algebra_simps)
qed

lemma be_nat_Cons: "be_nat (b # bs) = unat b * 256 ^ length bs + be_nat bs"
  using be_nat_foldl [of "unat b" bs] by (simp add: be_nat_def)

lemma be_nat_less: "be_nat bs < 256 ^ length bs"
proof (induction bs)
  case Nil
  then show ?case by (simp add: be_nat_def)
next
  case (Cons b bs)
  define X :: nat where "X = 256 ^ length bs"
  have "unat b < 256" by (rule u8_unat_less)
  then have "unat b + 1 \<le> 256" by simp
  then have "(unat b + 1) * X \<le> 256 * X"
    by (rule mult_le_mono1)
  then have "unat b * X + X \<le> 256 * X"
    by (simp add: algebra_simps)
  moreover from Cons have "be_nat bs < X"
    by (simp add: X_def)
  ultimately have "unat b * X + be_nat bs < 256 * X"
    by linarith
  then show ?case
    by (simp add: be_nat_Cons X_def)
qed

text \<open>Byte-lexicographic order on keys of equal length is the order of their values.\<close>

lemma be_nat_mono:
  "length xs = length ys \<Longrightarrow> xs \<le> ys \<Longrightarrow> be_nat xs \<le> be_nat (ys :: bytes)"
proof (induction xs ys rule: list_induct2)
  case Nil
  then show ?case by simp
next
  case (Cons x xs y ys)
  from Cons.prems have "x < y \<or> x = y \<and> xs \<le> ys" by simp
  then show ?case
  proof
    assume "x < y"
    then have "unat x + 1 \<le> unat y" by (simp add: word_less_nat_alt)
    then have "(unat x + 1) * 256 ^ length xs \<le> unat y * 256 ^ length xs"
      by (rule mult_le_mono1)
    then have "unat x * 256 ^ length xs + 256 ^ length xs \<le> unat y * 256 ^ length xs"
      by (simp add: algebra_simps)
    with be_nat_less [of xs] have "unat x * 256 ^ length xs + be_nat xs \<le>
        unat y * 256 ^ length xs + be_nat ys"
      by linarith
    with Cons.hyps show ?thesis
      by (simp add: be_nat_Cons)
  next
    assume "x = y \<and> xs \<le> ys"
    with Cons.IH Cons.hyps show ?thesis
      by (simp add: be_nat_Cons)
  qed
qed

lemma keyToID_be_nat_gen:
  "foldl (\<lambda>a b. push_bit 8 a OR ucast b) (of_nat m :: u64) (bs :: bytes) =
     of_nat (foldl (\<lambda>a b. a * 256 + unat b) m bs)"
proof (induction bs arbitrary: m)
  case Nil
  then show ?case by simp
next
  case (Cons b bs)
  have disj: "push_bit 8 (of_nat m :: u64) AND ucast b = 0"
    by (rule bit_eqI) (auto simp: bit_simps dest: bit_imp_le_length)
  have "push_bit 8 (of_nat m :: u64) OR ucast b = push_bit 8 (of_nat m) + ucast b"
    using disj by (simp add: disjunctive_add_eq_or)
  also have "\<dots> = of_nat (m * 256 + unat b)"
    by (simp add: push_bit_eq_mult)
  finally have step: "push_bit 8 (of_nat m :: u64) OR ucast b = of_nat (m * 256 + unat b)" .
  show ?case
    by (simp only: foldl_Cons step Cons.IH)
qed

lemma keyToID_be_nat: "keyToID bs = of_nat (be_nat bs)"
  using keyToID_be_nat_gen [of 0 bs] by (simp add: keyToID_def be_nat_def)

lemma be_nat_digits:
  "be_nat (map (\<lambda>j. (of_nat (n div 256 ^ j mod 256) :: u8)) (rev [0..<k])) = n mod 256 ^ k"
proof (induction k)
  case 0
  then show ?case by (simp add: be_nat_def)
next
  case (Suc k)
  have "unat (of_nat (n div 256 ^ k mod 256) :: u8) = n div 256 ^ k mod 256"
    by (simp add: unat_of_nat)
  then have "be_nat (map (\<lambda>j. (of_nat (n div 256 ^ j mod 256) :: u8)) (rev [0..<Suc k])) =
        (n div 256 ^ k mod 256) * 256 ^ k + n mod 256 ^ k"
    by (simp add: be_nat_Cons Suc.IH)
  also have "\<dots> = n mod 256 ^ Suc k"
    by (simp only: power_Suc2 mod_mult2_eq) (simp add: mult.commute)
  finally show ?case .
qed

lemma idToKey_digits:
  "idToKey i = map (\<lambda>j. (of_nat (unat i div 256 ^ j mod 256) :: u8)) (rev [0..<8])"
proof -
  have d: "(ucast (drop_bit (8 * j) i) :: u8) = of_nat (unat i div 256 ^ j mod 256)" for j
  proof -
    have "unat (ucast (drop_bit (8 * j) i) :: u8) = unat i div 256 ^ j mod 256"
      by (simp only: unsigned_ucast_eq unat_drop_bit_eq)
        (simp add: drop_bit_eq_div take_bit_eq_mod power_mult)
    then show ?thesis
      by (simp add: word_unat_eq_iff unat_of_nat)
  qed
  have "rev [0..<8] = [7, 6, 5, 4, 3, 2, 1, 0 :: nat]"
    by code_simp
  then show ?thesis
    by (simp only: idToKey_def d)
qed

lemma be_nat_idToKey: "be_nat (idToKey i) = unat i"
proof -
  have "unat i < 256 ^ 8"
    using unsigned_less [of i, where 'a = nat] by simp
  then show ?thesis
    by (simp only: idToKey_digits be_nat_digits mod_less)
qed

lemma keyToID_idToKey: "keyToID (idToKey i) = i"
  by (simp add: keyToID_be_nat be_nat_idToKey)

lemma keyToID_generateKey: "keyToID (drop 2 (generateKey p i)) = i"
proof -
  have "drop 2 (generateKey p i) = idToKey i"
    by (simp add: generateKey_def generatePrefix_def idToKey_def)
  then show ?thesis by (simp add: keyToID_idToKey)
qed

lemma generateKey_mono:
  assumes "generateKey p i \<le> generateKey p j"
  shows "i \<le> j"
proof -
  have "generateKey p i = [p, hd prefixSep] @ idToKey i" for i
    by (simp add: generateKey_def generatePrefix_def idToKey_def)
  with assms have "idToKey i \<le> idToKey j" by simp
  moreover have "length (idToKey i) = length (idToKey j)"
    by (simp add: idToKey_def)
  ultimately have "be_nat (idToKey i) \<le> be_nat (idToKey j)"
    by (intro be_nat_mono)
  then show ?thesis
    by (simp add: be_nat_idToKey word_le_nat_alt)
qed

section \<open>Recovery from a store the queue has written\<close>

lemma fold_min_first:
  fixes k :: bytes
  shows "fold min ks k \<in> set (k # ks)" and "x \<in> set (k # ks) \<Longrightarrow> fold min ks k \<le> x"
proof -
  have m: "fold min ks k = Min (set (k # ks))"
    by (simp only: Min.set_eq_fold)
  show "fold min ks k \<in> set (k # ks)"
    unfolding m by (rule Min_in) simp_all
  show "x \<in> set (k # ks) \<Longrightarrow> fold min ks k \<le> x"
    unfolding m by (rule Min_le) simp_all
qed

lemma fold_max_last:
  fixes k :: bytes
  shows "fold max ks k \<in> set (k # ks)" and "x \<in> set (k # ks) \<Longrightarrow> x \<le> fold max ks k"
proof -
  have m: "fold max ks k = Max (set (k # ks))"
    by (simp only: Max.set_eq_fold)
  show "fold max ks k \<in> set (k # ks)"
    unfolding m by (rule Max_in) simp_all
  show "x \<in> set (k # ks) \<Longrightarrow> x \<le> fold max ks k"
    unfolding m by (rule Max_ge) simp_all
qed

lemma iter_keys_written:
  assumes "ids_within d n" and "k \<in> set (iter_keys d (generatePrefix p))"
  shows "\<exists>i. k = generateKey p i \<and> i \<noteq> 0 \<and> unat i \<le> n"
proof -
  have "length (generatePrefix p) = 2"
    by (simp add: generatePrefix_def)
  with assms(2) have k: "k \<in> fst ` set d" and pre: "take 2 k = generatePrefix p"
    by (simp_all add: iter_keys_def)
  from assms(1) k obtain p' i where w: "k = generateKey p' i" "i \<noteq> 0" "unat i \<le> n"
    unfolding ids_within_def by blast
  from pre w(1) have "p' = p"
    by (simp add: generateKey_prefix generatePrefix_def)
  with w show ?thesis by blast
qed

text \<open>Recovery from a store the queue has written: head at most tail, the tail within
  the ids of the store, and a level is nonempty exactly when it has keys.\<close>

lemma recover_level_written:
  assumes "ids_within d n"
  shows "head (recover_level d p) \<le> tail (recover_level d p)"
    and "unat (tail (recover_level d p)) \<le> n"
    and "has_keys d p \<longleftrightarrow> length_pl (recover_level d p) \<noteq> 0"
proof -
  have "head (recover_level d p) \<le> tail (recover_level d p) \<and>
        unat (tail (recover_level d p)) \<le> n \<and>
        (has_keys d p \<longleftrightarrow> length_pl (recover_level d p) \<noteq> 0)"
  proof (cases "iter_keys d (generatePrefix p)")
    case Nil
    then show ?thesis
      by (simp add: recover_level_def has_keys_def iter_First_simps length_pl_def)
  next
    case (Cons k ks)
    let ?f = "fold min ks k" and ?l = "fold max ks k"
    from fold_min_first(1) [of ks k] Cons have "?f \<in> set (iter_keys d (generatePrefix p))"
      by simp
    from iter_keys_written [OF assms this] obtain i1 where
      f: "?f = generateKey p i1" and i1: "i1 \<noteq> 0" by blast
    from fold_max_last(1) [of ks k] Cons have "?l \<in> set (iter_keys d (generatePrefix p))"
      by simp
    from iter_keys_written [OF assms this] obtain i2 where
      l: "?l = generateKey p i2" and i2: "unat i2 \<le> n" by blast
    have "?f \<le> k" by (rule fold_min_first(2)) simp
    also have "k \<le> ?l" by (rule fold_max_last(2)) simp
    finally have "i1 \<le> i2"
      unfolding f l by (rule generateKey_mono)
    then have le: "unat i1 \<le> unat i2"
      by (simp add: word_le_nat_alt)
    from i1 have u: "unat (i1 - 1) = unat i1 - 1" and pos: "0 < unat i1"
      by (simp_all add: unat_minus_one unat_gt_0)
    have r: "recover_level d p = \<lparr>head = i1 - 1, tail = i2\<rparr>"
      by (simp add: recover_level_def Cons iter_First_simps f l keyToID_generateKey)
    have "i2 - (i1 - 1) \<noteq> 0"
    proof
      assume "i2 - (i1 - 1) = 0"
      then have "i2 = i1 - 1" by simp
      with u le pos show False by simp
    qed
    with u le i2 show ?thesis
      by (simp add: r has_keys_def Cons length_pl_def word_le_nat_alt)
  qed
  then show "head (recover_level d p) \<le> tail (recover_level d p)"
    and "unat (tail (recover_level d p)) \<le> n"
    and "has_keys d p \<longleftrightarrow> length_pl (recover_level d p) \<noteq> 0"
    by blast+
qed

lemma counters_ok_init:
  assumes "init iter_ok pq = Inr pq'" and "ids_within (db pq) n"
  shows "counters_ok n pq'"
  using recover_level_written(1,2) [OF assms(2)]
  by (simp add: counters_ok_def init_Inr(5) [OF assms(1)])

lemma ids_within_empty: "ids_within [] n"
  by (simp add: ids_within_def)

section \<open>The claims\<close>

text \<open>C1. On a queue opened on a new, empty store, enqueue any list of fewer than 2^64
  items and then call \<^verbatim>\<open>Dequeue\<close> once per item (the store answering every call): every
  call hands out an item; the priorities come out in nondecreasing order in ascending
  mode and in nonincreasing order in descending mode; and the values of each priority
  level come out in the order in which they were enqueued.\<close>

theorem enqueue_then_drain_order:
  assumes "OpenPriorityQueue dir ord (Inr []) checked iter_ok = Inr pq0" and "length items < 2 ^ 64"
    and "ord = ASC \<or> ord = DESC"
  shows "length (drain (length items) (enqueueAll items pq0)) = length items \<and>
         (\<forall>p. map Value (filter (\<lambda>it. Priority it = p)
                  (drain (length items) (enqueueAll items pq0))) =
              map Value (filter (\<lambda>it. Priority it = p) items)) \<and>
         (ord = ASC \<longrightarrow> sorted (map Priority (drain (length items) (enqueueAll items pq0)))) \<and>
         (ord = DESC \<longrightarrow>
            sorted (rev (map Priority (drain (length items) (enqueueAll items pq0)))))"
proof -
  let ?pq = "enqueueAll items pq0"
  let ?q = "\<lambda>p. map Value (filter (\<lambda>it. Priority it = p) items)"
  let ?out = "drain (length items) ?pq"
  have pq0: "pq0 = emptyQueue dir ord"
    using assms(1) by (rule open_empty_is_emptyQueue)
  have "\<forall>p. unat (tail (levels pq0 p)) + length items < 2 ^ 64"
    using assms(2) by (simp add: pq0 emptyQueue_def)
  with holds_emptyQueue [of dir ord]
  have "holds ?pq (\<lambda>p. [] @ ?q p)"
    unfolding pq0 by (rule holds_enqueueAll)
  then have h: "holds ?pq ?q" by simp
  have o: "order ?pq = ord"
    by (simp add: order_enqueueAll pq0 emptyQueue_def)
  have n: "(\<Sum>p \<in> (UNIV :: u8 set). length (?q p)) = length items"
    by (simp only: length_map sum_length_filter)
  from drain_holds [OF h _ n] assms(3) o
  have len: "length ?out = length items"
    and fifo: "\<forall>p. map Value (filter (\<lambda>it. Priority it = p) ?out) = ?q p"
    and srt: "sorted_wrt (\<lambda>a b. \<not> more_important ord (Priority b) (Priority a)) ?out"
    by simp_all
  have asc: "sorted (map Priority ?out)" if "ord = ASC"
    using srt that
    by (simp add: sorted_map more_important_def ASC_def DESC_def not_less)
  have desc: "sorted (rev (map Priority ?out))" if "ord = DESC"
    using srt that
    by (simp add: sorted_wrt_rev sorted_wrt_map more_important_def ASC_def DESC_def not_less)
  from len fifo asc desc show ?thesis by blast
qed

theorem enqueue_then_drain_order_witness:
  "OpenPriorityQueue [] ASC (Inr []) (Inr True) (\<lambda>_. True) = Inr (emptyQueue [] ASC) \<and>
   length scenarioA < 2 ^ 64 \<and>
   map Value (drain (length scenarioA) (enqueueAll scenarioA (emptyQueue [] ASC))) =
     [[0x62], [0x61], [0x63]] \<and>
   sorted (map Priority (drain (length scenarioA) (enqueueAll scenarioA (emptyQueue [] ASC))))"
proof -
  have a: "OpenPriorityQueue [] ASC (Inr []) (Inr True) (\<lambda>_. True) = Inr (emptyQueue [] ASC)"
    by (simp add: open_empty)
  have b: "length scenarioA < 2 ^ 64"
    by (simp add: scenarioA_def)
  have c: "ASC = ASC \<or> ASC = DESC"
    by simp
  have d: "map Value (drain (length scenarioA) (enqueueAll scenarioA (emptyQueue [] ASC))) =
     [[0x62], [0x61], [0x63]]"
    by code_simp
  from enqueue_then_drain_order [OF a b c] a b d show ?thesis
    by simp
qed

text \<open>C2. Recovery on open: a level with at least one key under its prefix gets
  head = first id - 1 and tail = last id, a level without keys gets 0 and 0
  (\<open>recover_level\<close>), and the cursor ends on the most important level that has keys
  (255 in ascending, 0 in descending mode when there is none). On a store that the queue
  itself has written, that is the level on which the reset-and-scan of \<^verbatim>\<open>getNextItem\<close>
  ends when run on the recovered levels.\<close>

theorem init_recovery:
  assumes "init iter_ok pq = Inr pq'"
  shows "(\<forall>p. levels pq' p = recover_level (db pq) p) \<and>
         (order pq = ASC \<longrightarrow>
            (\<forall>p. has_keys (db pq) p \<longrightarrow> curLevel pq' \<le> p) \<and>
            (has_keys (db pq) (curLevel pq') \<or> curLevel pq' = 255)) \<and>
         (order pq = DESC \<longrightarrow>
            (\<forall>p. has_keys (db pq) p \<longrightarrow> p \<le> curLevel pq') \<and>
            (has_keys (db pq) (curLevel pq') \<or> curLevel pq' = 0)) \<and>
         (ids_within (db pq) n \<longrightarrow>
            curLevel pq' = curLevel (fold getNextItem_step level_range (resetCurrentLevel pq')))"
proof -
  note r = init_Inr [OF assms]
  have lv: "\<forall>p. levels pq' p = recover_level (db pq) p"
    using r(5) by simp
  have asc: "(\<forall>p. has_keys (db pq) p \<longrightarrow> curLevel pq' \<le> p) \<and>
             (has_keys (db pq) (curLevel pq') \<or> curLevel pq' = 255)" if "order pq = ASC"
    using scan_range_asc [of "has_keys (db pq)"] r(6) that
    by (simp add: resetCurrentLevel_def)
  have desc: "(\<forall>p. has_keys (db pq) p \<longrightarrow> p \<le> curLevel pq') \<and>
              (has_keys (db pq) (curLevel pq') \<or> curLevel pq' = 0)" if "order pq = DESC"
    using scan_range_desc [of "has_keys (db pq)"] r(6) that
    by (simp add: resetCurrentLevel_def ASC_def DESC_def)
  have same: "curLevel pq' = curLevel (fold getNextItem_step level_range (resetCurrentLevel pq'))"
    if w: "ids_within (db pq) n"
  proof -
    have "has_keys (db pq) p \<longleftrightarrow> 0 < length_pl (levels pq' p)" for p
      using recover_level_written(3) [OF w, of p] by (simp add: r(5) word_greater_zero_iff)
    then have P: "(\<lambda>p. 0 < length_pl (levels pq' p)) = has_keys (db pq)"
      by (simp add: fun_eq_iff)
    have "curLevel (fold getNextItem_step level_range (resetCurrentLevel pq')) =
          fold (scan_step (order pq) (has_keys (db pq))) level_range
            (curLevel (resetCurrentLevel pq'))"
      by (simp add: getNextItem_scan_cursor resetCurrentLevel_frame r(2) P)
    also have "\<dots> = fold (scan_step (order pq) (has_keys (db pq))) level_range
            (curLevel (resetCurrentLevel pq))"
    proof (cases "order pq = ASC \<or> order pq = DESC")
      case True
      then show ?thesis by (auto simp: resetCurrentLevel_def r(2))
    next
      case False
      then show ?thesis using r(6) by (simp add: scan_other resetCurrentLevel_def r(2))
    qed
    finally show ?thesis using r(6) by simp
  qed
  from lv asc desc same show ?thesis by blast
qed

theorem init_recovery_witness:
  "init (\<lambda>_. True) unrecovered = Inr (projr (init (\<lambda>_. True) unrecovered)) \<and>
   ids_within stored 7 \<and>
   levels (projr (init (\<lambda>_. True) unrecovered)) 5 = \<lparr>head = 2, tail = 4\<rparr> \<and>
   levels (projr (init (\<lambda>_. True) unrecovered)) 1 = \<lparr>head = 6, tail = 7\<rparr> \<and>
   levels (projr (init (\<lambda>_. True) unrecovered)) 9 = \<lparr>head = 0, tail = 0\<rparr> \<and>
   curLevel (projr (init (\<lambda>_. True) unrecovered)) \<le> 1 \<and>
   curLevel (projr (init (\<lambda>_. True) unrecovered)) =
     curLevel (fold getNextItem_step level_range
       (resetCurrentLevel (projr (init (\<lambda>_. True) unrecovered))))"
proof -
  obtain pq' where i: "init (\<lambda>_. True) unrecovered = Inr pq'"
    using init_total [of "\<lambda>_. True" unrecovered] by auto
  have d: "db unrecovered = stored" "order unrecovered = ASC"
    by (simp_all add: unrecovered_def)
  have w: "ids_within stored 7"
    by (simp add: ids_within_def stored_def generateKey_inj)
  have l5: "recover_level stored 5 = \<lparr>head = 2, tail = 4\<rparr>" by code_simp
  have l1: "recover_level stored 1 = \<lparr>head = 6, tail = 7\<rparr>" by code_simp
  have l9: "recover_level stored 9 = \<lparr>head = 0, tail = 0\<rparr>" by code_simp
  have k1: "has_keys stored 1" by code_simp
  have pr: "projr (init (\<lambda>_. True) unrecovered) = pq'"
    by (simp add: i)
  from init_recovery [OF i, of 7, unfolded d] w
  have lv: "\<forall>p. levels pq' p = recover_level stored p"
    and best: "\<forall>p. has_keys stored p \<longrightarrow> curLevel pq' \<le> p"
    and same: "curLevel pq' = curLevel (fold getNextItem_step level_range (resetCurrentLevel pq'))"
    by blast+
  from best k1 have c: "curLevel pq' \<le> 1" by blast
  from lv l5 l1 l9 have "levels pq' 5 = \<lparr>head = 2, tail = 4\<rparr>"
    "levels pq' 1 = \<lparr>head = 6, tail = 7\<rparr>" "levels pq' 9 = \<lparr>head = 0, tail = 0\<rparr>"
    by simp_all
  with i w c same show ?thesis
    unfolding pr by blast
qed

text \<open>C3 (the code departs from the claim). In ascending mode, after two items on level 5,
  one \<^verbatim>\<open>Dequeue\<close> and one item on level 1, the second \<^verbatim>\<open>Dequeue\<close> from there hands
  out the item with id 2 of level 5, but \<^verbatim>\<open>PeekByOffset(1)\<close> reports out of bounds:
  \<^verbatim>\<open>findOffsetAsc\<close> asks for the id \<open>offset - length + 1\<close> without adding the level's
  head, as the branch for the current level does. And when the cursor rests on a drained
  level while another level holds an item, \<^verbatim>\<open>Dequeue\<close> hands that item out, but
  \<^verbatim>\<open>PeekByOffset(0)\<close> reports an empty queue: \<open>length() - 1\<close> wraps around, so the
  branch for the current level is taken.\<close>

theorem peekByOffset_departs:
  "PeekByOffset True drained_then_preempted 1 = (None, Some ErrOutOfBounds) \<and>
   snd (Dequeue True True (fst (Dequeue True True drained_then_preempted))) =
     (Some \<lparr>ID = 2, Priority = 5, Key = generateKey 5 2, Value = [0x62]\<rparr>, None) \<and>
   PeekByOffset True drained_with_backlog 0 = (None, Some ErrEmpty) \<and>
   snd (Dequeue True True drained_with_backlog) =
     (Some \<lparr>ID = 1, Priority = 5, Key = generateKey 5 1, Value = [0x62]\<rparr>, None)"
  by code_simp

text \<open>C4, as stated, fails on an empty queue: offset 0 is not below the length 0, yet the
  error is \<open>ErrEmpty\<close>, not \<open>ErrOutOfBounds\<close>.\<close>

theorem peekByOffset_empty_counterexample:
  "Length (emptyQueue [] ASC) \<le> 0 \<and>
   PeekByOffset True (emptyQueue [] ASC) 0 = (None, Some ErrEmpty)"
  by code_simp

text \<open>C4, amended. In ascending or descending mode, with fewer than 2^64 items in the
  queue and \<open>offset \<ge> Length()\<close>:
  \<^verbatim>\<open>PeekByOffset(offset)\<close> fails with \<open>ErrOutOfBounds\<close> when the current level is
  nonempty, and with \<open>ErrEmpty\<close> when the whole queue is empty.\<close>

theorem peekByOffset_beyond_length:
  assumes "order pq = ASC \<or> order pq = DESC" and "item_count pq < 2 ^ 64"
    and "Length pq \<le> offset"
  shows "(length_pl (levels pq (curLevel pq)) \<noteq> 0 \<longrightarrow>
            PeekByOffset get_ok pq offset = (None, Some ErrOutOfBounds)) \<and>
         ((\<forall>p. length_pl (levels pq p) = 0) \<longrightarrow>
            PeekByOffset get_ok pq offset = (None, Some ErrEmpty))"
  using assms PeekByOffset_beyond [of pq offset get_ok] PeekByOffset_empty_level [of pq get_ok offset]
  by simp

theorem peekByOffset_beyond_length_witness:
  "PeekByOffset True (enqueueAll scenarioA (emptyQueue [] ASC)) 3 = (None, Some ErrOutOfBounds) \<and>
   PeekByOffset True (emptyQueue [] DESC) 7 = (None, Some ErrEmpty)"
proof -
  let ?pq = "enqueueAll scenarioA (emptyQueue [] ASC)"
  have a: "order ?pq = ASC \<or> order ?pq = DESC" by code_simp
  have "item_count ?pq = 3" by code_simp
  then have b: "item_count ?pq < 2 ^ 64" by simp
  have c: "Length ?pq \<le> 3" by code_simp
  have d: "length_pl (levels ?pq (curLevel ?pq)) \<noteq> 0" by code_simp
  let ?e = "emptyQueue [] DESC"
  have a': "order ?e = ASC \<or> order ?e = DESC" by (simp add: emptyQueue_def)
  have "item_count ?e = 0" by code_simp
  then have b': "item_count ?e < 2 ^ 64" by simp
  have c': "Length ?e \<le> 7" by code_simp
  have d': "\<forall>p. length_pl (levels ?e p) = 0" by (simp add: emptyQueue_def length_pl_def)
  from peekByOffset_beyond_length [OF a b c, of True] d
    peekByOffset_beyond_length [OF a' b' c', of True] d'
  show ?thesis by blast
qed

text \<open>C5. When \<^verbatim>\<open>Dequeue\<close> has located the next item and the delete fails, the item is
  returned together with the error, no head counter moves, and the next \<^verbatim>\<open>Dequeue\<close>
  returns the same item again (with the error when the delete fails again, without it
  when the delete goes through).\<close>

theorem dequeue_delete_failure:
  assumes "snd (getNextItem True pq) = (Some it, None)"
  shows "snd (Dequeue True False pq) = (Some it, Some ErrStorage) \<and>
         levels (fst (Dequeue True False pq)) = levels pq \<and>
         db (fst (Dequeue True False pq)) = db pq \<and>
         snd (Dequeue True False (fst (Dequeue True False pq))) = (Some it, Some ErrStorage) \<and>
         snd (Dequeue True True (fst (Dequeue True False pq))) = (Some it, None)"
proof -
  obtain pq1 where g: "getNextItem True pq = (pq1, Some it, None)"
    using assms by (cases "getNextItem True pq") simp
  note sh = getNextItem_shape [OF g]
  from sh(4) have ne: "length_pl (levels pq1 (curLevel pq1)) \<noteq> 0"
    by (auto split: if_splits)
  with sh(4) have r: "getItemByPriorityID True pq1 (curLevel pq1)
                     (head (levels pq1 (curLevel pq1)) + 1) = (Some it, None)"
    by simp
  have again: "getNextItem True pq1 = (pq1, Some it, None)"
    using ne r by (simp add: getNextItem_nonempty)
  have first: "Dequeue True False pq = (pq1, Some it, Some ErrStorage)"
    using g by (simp add: Dequeue_def remove_item_def db_Delete_def)
  show ?thesis
    unfolding first using again sh(1,2)
    by (simp add: Dequeue_def remove_item_def db_Delete_def)
qed

theorem dequeue_delete_failure_witness:
  "snd (getNextItem True (enqueueAll scenarioA (emptyQueue [] ASC))) =
     (Some \<lparr>ID = 1, Priority = 1, Key = generateKey 1 1, Value = [0x62]\<rparr>, None) \<and>
   snd (Dequeue True True (fst (Dequeue True False (enqueueAll scenarioA (emptyQueue [] ASC))))) =
     (Some \<lparr>ID = 1, Priority = 1, Key = generateKey 1 1, Value = [0x62]\<rparr>, None)"
proof -
  have h: "snd (getNextItem True (enqueueAll scenarioA (emptyQueue [] ASC))) =
     (Some \<lparr>ID = 1, Priority = 1, Key = generateKey 1 1, Value = [0x62]\<rparr>, None)"
    by code_simp
  from dequeue_delete_failure [OF h] h show ?thesis by simp
qed

text \<open>C6. When the put inside \<^verbatim>\<open>Enqueue\<close> fails, the queue is returned as it was (all
  counters, the cursor), the error is handed back, the failed item carried the id
  tail + 1, and the next \<^verbatim>\<open>Enqueue\<close> on that level gets the same id.\<close>

theorem enqueue_put_failure:
  "fst (Enqueue False pq item) = pq \<and>
   snd (snd (Enqueue False pq item)) = Some ErrStorage \<and>
   ID (fst (snd (Enqueue False pq item))) = tail (levels pq (Priority item)) + 1 \<and>
   ID (fst (snd (Enqueue put_ok (fst (Enqueue False pq item))
                   (item2\<lparr>Priority := Priority item\<rparr>)))) =
     ID (fst (snd (Enqueue False pq item)))"
  by (simp add: Enqueue_def db_Put_def Let_def)

text \<open>C7, as stated, fails: on a queue whose current level 1 has been drained,
  \<^verbatim>\<open>Peek\<close> finds nothing and leaves the cursor on 255.\<close>

theorem peek_moves_cursor_counterexample:
  "curLevel drained_level = 1 \<and> curLevel (fst (Peek True drained_level)) = 255"
  by code_simp

text \<open>C7, amended. \<^verbatim>\<open>Peek\<close> changes no head or tail counter and not the store; when the
  current level is nonempty it changes nothing at all. (When the current level is empty,
  \<^verbatim>\<open>getNextItem\<close> resets and rescans the cursor.)\<close>

theorem peek_frame:
  "levels (fst (Peek get_ok pq)) = levels pq \<and>
   db (fst (Peek get_ok pq)) = db pq \<and>
   order (fst (Peek get_ok pq)) = order pq \<and>
   (length_pl (levels pq (curLevel pq)) \<noteq> 0 \<longrightarrow> fst (Peek get_ok pq) = pq)"
  by (simp add: Peek_def getNextItem_def Let_def scan_frame resetCurrentLevel_frame)

theorem peek_frame_witness:
  "length_pl (levels (enqueueAll scenarioA (emptyQueue [] ASC))
      (curLevel (enqueueAll scenarioA (emptyQueue [] ASC)))) \<noteq> 0 \<and>
   fst (Peek True (enqueueAll scenarioA (emptyQueue [] ASC))) =
     enqueueAll scenarioA (emptyQueue [] ASC)"
proof -
  have h: "length_pl (levels (enqueueAll scenarioA (emptyQueue [] ASC))
      (curLevel (enqueueAll scenarioA (emptyQueue [] ASC)))) \<noteq> 0"
    by code_simp
  with peek_frame [of True "enqueueAll scenarioA (emptyQueue [] ASC)"] show ?thesis
    by simp
qed

text \<open>C8. A successful \<^verbatim>\<open>Enqueue\<close> moves the cursor to the new item's priority exactly
  when that priority is strictly more important than the cursor (lower in ascending,
  higher in descending mode), whatever the current level still holds; otherwise the
  cursor stays.\<close>

theorem enqueue_cursor_rule:
  "snd (snd (Enqueue True pq item)) = None \<and>
   curLevel (fst (Enqueue True pq item)) =
     (if (order pq = ASC \<and> Priority item < curLevel pq) \<or>
         (order pq = DESC \<and> Priority item > curLevel pq)
      then Priority item else curLevel pq)"
  by (simp add: Enqueue_def db_Put_def Let_def cmpAsc_def cmpDesc_def)

text \<open>C9. Open the queue on a store that the queue itself has written: every key is the
  key of a priority and an id from 1 to \<open>n\<close>; the empty store of a new queue is such a
  store, with \<open>n = 0\<close>. After any sequence \<open>cs\<close> of calls of \<^verbatim>\<open>Enqueue\<close>,
  \<^verbatim>\<open>Dequeue\<close>, \<^verbatim>\<open>DequeueByPriority\<close>, \<^verbatim>\<open>Peek\<close>, \<^verbatim>\<open>PeekByOffset\<close>,
  \<^verbatim>\<open>PeekByPriorityID\<close> and \<^verbatim>\<open>Update\<close>, the store failing or not at each call, with
  \<open>n + length cs < 2^64\<close> (no id wraps around), every level has head at most tail.\<close>

theorem head_le_tail_reachable:
  assumes "OpenPriorityQueue dir ord (Inr store) checked iter_ok = Inr pq0"
    and "ids_within store n" and "n + length cs < 2 ^ 64"
  shows "head (levels (run cs pq0) p) \<le> tail (levels (run cs pq0) p)"
proof -
  have "counters_ok n pq0"
    using OpenPriorityQueue_Inr [OF assms(1)] assms(2)
    by (auto intro: counters_ok_init)
  from counters_ok_run [OF this assms(3)] show ?thesis
    by (simp add: counters_ok_def)
qed

theorem head_le_tail_reachable_witness:
  "OpenPriorityQueue [] ASC (Inr stored) (Inr True) (\<lambda>_. True) =
     Inr (projr (OpenPriorityQueue [] ASC (Inr stored) (Inr True) (\<lambda>_. True))) \<and>
   ids_within stored 7 \<and> 7 + length sample_calls < 2 ^ 64 \<and>
   head (levels (run sample_calls (projr (OpenPriorityQueue [] ASC (Inr stored) (Inr True) (\<lambda>_. True)))) 5) \<le>
     tail (levels (run sample_calls (projr (OpenPriorityQueue [] ASC (Inr stored) (Inr True) (\<lambda>_. True)))) 5) \<and>
   OpenPriorityQueue [] ASC (Inr []) (Inr True) (\<lambda>_. True) = Inr (emptyQueue [] ASC) \<and>
   ids_within [] 0 \<and> 0 + length sample_calls < 2 ^ 64 \<and>
   head (levels (run sample_calls (emptyQueue [] ASC)) 5) \<le>
     tail (levels (run sample_calls (emptyQueue [] ASC)) 5)"
proof -
  obtain pq' where "OpenPriorityQueue [] ASC (Inr stored) (Inr True) (\<lambda>_. True) = Inr pq'"
    using open_total [of "\<lambda>_. True" "[]" ASC stored] by auto
  then have a: "OpenPriorityQueue [] ASC (Inr stored) (Inr True) (\<lambda>_. True) =
      Inr (projr (OpenPriorityQueue [] ASC (Inr stored) (Inr True) (\<lambda>_. True)))"
    by simp
  have w: "ids_within stored 7"
    by (simp add: ids_within_def stored_def generateKey_inj)
  have b: "7 + length sample_calls < 2 ^ 64"
    by (simp add: sample_calls_def)
  have a': "OpenPriorityQueue [] ASC (Inr []) (Inr True) (\<lambda>_. True) = Inr (emptyQueue [] ASC)"
    by (simp add: open_empty)
  have w': "ids_within [] 0"
    by (simp add: ids_within_def)
  have b': "0 + length sample_calls < 2 ^ 64"
    by (simp add: sample_calls_def)
  from head_le_tail_reachable [OF a w b, of 5] head_le_tail_reachable [OF a' w' b', of 5]
    a w b a' w' b'
  show ?thesis by blast
qed

text \<open>C10. From a queue opened on any store, after any sequence of public calls, every
  level strictly more important than the cursor (lower in ascending, higher in descending
  mode) is empty: its head equals its tail.\<close>

theorem cursor_levels_empty_reachable:
  assumes "OpenPriorityQueue dir ord (Inr store) checked iter_ok = Inr pq0"
  shows "\<forall>p. (ord = ASC \<and> p < curLevel (run cs pq0) \<or> ord = DESC \<and> curLevel (run cs pq0) < p) \<longrightarrow>
           head (levels (run cs pq0) p) = tail (levels (run cs pq0) p)"
proof -
  from OpenPriorityQueue_Inr [OF assms] have "cursor_inv pq0" and o: "order pq0 = ord"
    by (auto dest: cursor_inv_init init_Inr(2))
  then have "cursor_inv (run cs pq0)"
    by (simp add: cursor_inv_run)
  moreover have "order (run cs pq0) = ord"
    using o by (simp add: order_run)
  ultimately show ?thesis
    by (simp add: cursor_inv_def more_important_def)
qed

theorem cursor_levels_empty_reachable_witness:
  "OpenPriorityQueue [] ASC (Inr []) (Inr True) (\<lambda>_. True) = Inr (emptyQueue [] ASC) \<and>
   0 < curLevel (run sample_calls (emptyQueue [] ASC)) \<and>
   head (levels (run sample_calls (emptyQueue [] ASC)) 0) =
     tail (levels (run sample_calls (emptyQueue [] ASC)) 0)"
proof -
  have a: "OpenPriorityQueue [] ASC (Inr []) (Inr True) (\<lambda>_. True) = Inr (emptyQueue [] ASC)"
    by (simp add: open_empty)
  have b: "0 < curLevel (run sample_calls (emptyQueue [] ASC))"
    by code_simp
  from cursor_levels_empty_reachable [OF a, of sample_calls] a b show ?thesis
    by simp
qed

end
